theory Spec2Isabelle
  imports Complex_Main "HOL-Library.Multiset" "HOL-Library.Char_ord" "HOL-Library.List_Lexorder"
begin

section \<open>The geometry question generators\<close>

text \<open>
  The development embeds the two geometry MCQ generators of the repository,
  \<^verbatim>\<open>randomShapeGenerator.py\<close> and \<^verbatim>\<open>untitled1.py\<close>. Both files hold the same
  functions under the same names; where their bodies differ the model
  takes the file as a parameter of type \<open>variant\<close>.

  Conventions of the embedding:
  \<^item> the process-wide random generator is an infinite sequence of raw draws
    \<open>rand\<close>; every call of the \<^verbatim>\<open>random\<close> module consumes draws from its front
    and hands the rest on;
  \<^item> Python floats are modelled by the real numbers they stand for;
  \<^item> a raised exception is a value \<open>Inl e\<close>; a loop that never leaves is the
    value \<open>None\<close>;
  \<^item> the drawing calls on the Matplotlib axes produce no value and are left
    out; the \<^verbatim>\<open>ax\<close> parameter is dropped.
\<close>

subsection \<open>Errors and the random source\<close>

datatype py_error = ValueError | IndexError | KeyError | ZeroDivisionError

datatype variant = RandomShapeGenerator | Untitled1

type_synonym rand = "nat \<Rightarrow> nat"

definition rest :: "rand \<Rightarrow> rand" where
  "rest rs = (\<lambda>i. rs (Suc i))"

text \<open>A source given by a finite prefix of raw draws, followed by zeros.\<close>

definition draws :: "nat list \<Rightarrow> rand" where
  "draws xs = (\<lambda>i. if i < length xs then xs ! i else 0)"

text \<open>
  \<^verbatim>\<open>Random._randbelow(n)\<close> for \<open>n > 0\<close>: a number below \<open>n\<close>, here the next raw
  draw reduced modulo \<open>n\<close>, so that every number below \<open>n\<close> is the outcome for
  some source.
\<close>

definition randbelow :: "nat \<Rightarrow> rand \<Rightarrow> nat \<times> rand" where
  "randbelow n rs = (rs 0 mod n, rest rs)"

text \<open>\<^verbatim>\<open>random.randint(a, b)\<close>: raises ValueError on an empty range.\<close>

definition random_randint :: "int \<Rightarrow> int \<Rightarrow> rand \<Rightarrow> py_error + int \<times> rand" where
  "random_randint a b rs =
     (if b < a then Inl ValueError
      else (case randbelow (nat (b - a + 1)) rs of (k, rs1) \<Rightarrow> Inr (a + int k, rs1)))"

text \<open>\<^verbatim>\<open>random.choice(seq)\<close>: raises IndexError on an empty sequence.\<close>

definition random_choice :: "'a list \<Rightarrow> rand \<Rightarrow> py_error + 'a \<times> rand" where
  "random_choice seq rs =
     (if seq = [] then Inl IndexError
      else (case randbelow (length seq) rs of (k, rs1) \<Rightarrow> Inr (seq ! k, rs1)))"

text \<open>
  \<^verbatim>\<open>random.shuffle(x)\<close>:
  \<^verbatim>\<open>for i in reversed(range(1, len(x))): j = randbelow(i + 1); x[i], x[j] = x[j], x[i]\<close>
\<close>

fun shuffle_loop :: "nat \<Rightarrow> 'a list \<Rightarrow> rand \<Rightarrow> 'a list \<times> rand" where
  "shuffle_loop 0 x rs = (x, rs)"
| "shuffle_loop (Suc i) x rs =
     (case randbelow (Suc i + 1) rs of
        (j, rs1) \<Rightarrow> shuffle_loop i (x[Suc i := x ! j, j := x ! Suc i]) rs1)"

definition random_shuffle :: "'a list \<Rightarrow> rand \<Rightarrow> 'a list \<times> rand" where
  "random_shuffle x rs = shuffle_loop (length x - 1) x rs"

subsection \<open>Utility helpers\<close>

text \<open>
  Python's \<^verbatim>\<open>round(x)\<close> on a float: the nearest integer, the even one of the
  two when \<open>x\<close> lies exactly halfway. \<^verbatim>\<open>int(x)\<close> on a float truncates towards
  zero.
\<close>

definition py_round :: "real \<Rightarrow> int" where
  "py_round x =
     (let f = \<lfloor>x\<rfloor>; d = x - of_int f
      in if d < 1 / 2 then f else if 1 / 2 < d then f + 1
         else if even f then f else f + 1)"

definition py_int :: "real \<Rightarrow> int" where
  "py_int x = (if 0 \<le> x then \<lfloor>x\<rfloor> else \<lceil>x\<rceil>)"

definition clamp_int :: "real \<Rightarrow> int" where
  "clamp_int n = py_round n"

text \<open>\<^verbatim>\<open>str(n)\<close> of an integer: its decimal digits, with a minus sign when negative.\<close>

definition digit_char :: "nat \<Rightarrow> char" where
  "digit_char d = ''0123456789'' ! d"

function nat_digits :: "nat \<Rightarrow> string" where
  "nat_digits n = (if n < 10 then [digit_char n] else nat_digits (n div 10) @ [digit_char (n mod 10)])"
  by pat_completeness auto
termination
  by (relation "measure id") auto

declare nat_digits.simps [simp del]

definition i2s :: "int \<Rightarrow> string" where
  "i2s n = (if n < 0 then CHR ''-'' # nat_digits (nat (- n)) else nat_digits (nat n))"

subsection \<open>Option generators\<close>

definition labels :: "string list" where
  "labels = [''A'', ''B'', ''C'', ''D'', ''E'']"

text \<open>\<^verbatim>\<open>list.index\<close>: the first position of a value, \<open>None\<close> where Python raises ValueError.\<close>

fun list_index :: "'a list \<Rightarrow> 'a \<Rightarrow> nat option" where
  "list_index [] x = None"
| "list_index (y # ys) x = (if y = x then Some 0 else map_option Suc (list_index ys x))"

text \<open>
  \<^verbatim>\<open>list(cand)\<close> of a set of integers. Python leaves the iteration order of a
  set open; the model lists the elements in ascending order. The list is
  shuffled right after, and no statement below depends on the order.
\<close>

definition list_of_set :: "int set \<Rightarrow> int list" where
  "list_of_set s = sorted_list_of_set s"

text \<open>
  The last two lines of both option generators:
  \<^verbatim>\<open>correct_letter = labels[opts.index(correct)]\<close>
  \<^verbatim>\<open>return {labels[i]: i2s(opts[i]) for i in range(5)}, correct_letter\<close>
  The dict is an association list in insertion order.
\<close>

definition label_options :: "int \<Rightarrow> int list \<Rightarrow> py_error + (string \<times> string) list \<times> string" where
  "label_options correct opts =
     (case list_index opts correct of
        None \<Rightarrow> Inl ValueError
      | Some k \<Rightarrow>
          if length labels \<le> k then Inl IndexError
          else if length opts < 5 then Inl IndexError
          else Inr (map (\<lambda>i. (labels ! i, i2s (opts ! i))) [0..<5], labels ! k))"

text \<open>
  The distance bound of the distractors. \<^verbatim>\<open>randomShapeGenerator.py\<close>:
  \<^verbatim>\<open>base = max(6, int(round(abs(correct) * 0.2))); limit = max(spread, base)\<close>
  with \<^verbatim>\<open>spread = 8\<close>, the default, which no caller overrides.
  \<^verbatim>\<open>untitled1.py\<close>: \<^verbatim>\<open>spread = max(6, int(abs(correct) * 0.2))\<close>.
\<close>

definition mcq_limit :: "variant \<Rightarrow> int \<Rightarrow> int" where
  "mcq_limit v correct =
     (case v of
        RandomShapeGenerator \<Rightarrow> max 8 (max 6 (py_int (of_int (py_round (of_int \<bar>correct\<bar> * 0.2)))))
      | Untitled1 \<Rightarrow> max 6 (py_int (of_int \<bar>correct\<bar> * 0.2)))"

text \<open>
  One candidate value. \<^verbatim>\<open>randomShapeGenerator.py\<close>:
  \<^verbatim>\<open>sign = random.choice([-1, 1]); val = correct + sign * delta\<close>;
  \<^verbatim>\<open>untitled1.py\<close>: \<^verbatim>\<open>val = correct + random.choice([-delta, delta])\<close>.
\<close>

definition draw_val :: "variant \<Rightarrow> int \<Rightarrow> int \<Rightarrow> rand \<Rightarrow> py_error + int \<times> rand" where
  "draw_val v correct delta rs =
     (case v of
        RandomShapeGenerator \<Rightarrow>
          (case random_choice [- 1, 1] rs of
             Inl e \<Rightarrow> Inl e
           | Inr (sign, rs1) \<Rightarrow> Inr (correct + sign * delta, rs1))
      | Untitled1 \<Rightarrow>
          (case random_choice [- delta, delta] rs of
             Inl e \<Rightarrow> Inl e
           | Inr (d, rs1) \<Rightarrow> Inr (correct + d, rs1)))"

text \<open>
  \<^verbatim>\<open>while len(cand) < 5: delta = random.randint(1, limit); ...; if val > 0: cand.add(val)\<close>
  The source puts no bound on the number of rounds.
\<close>

partial_function (option) mcq_int_loop ::
  "variant \<Rightarrow> int \<Rightarrow> int \<Rightarrow> int set \<Rightarrow> rand \<Rightarrow> (py_error + int set \<times> rand) option" where
  "mcq_int_loop v correct limit cand rs =
     (if card cand < 5 then
        (case random_randint 1 limit rs of
           Inl e \<Rightarrow> Some (Inl e)
         | Inr (delta, rs1) \<Rightarrow>
             (case draw_val v correct delta rs1 of
                Inl e \<Rightarrow> Some (Inl e)
              | Inr (val, rs2) \<Rightarrow>
                  mcq_int_loop v correct limit (if 0 < val then insert val cand else cand) rs2))
      else Some (Inr (cand, rs)))"

definition mcq_options_int ::
  "variant \<Rightarrow> int \<Rightarrow> rand \<Rightarrow> (py_error + ((string \<times> string) list \<times> string) \<times> rand) option" where
  "mcq_options_int v correct rs =
     (case mcq_int_loop v correct (mcq_limit v correct) {correct} rs of
        None \<Rightarrow> None
      | Some (Inl e) \<Rightarrow> Some (Inl e)
      | Some (Inr (cand, rs1)) \<Rightarrow>
          (case random_shuffle (list_of_set cand) rs1 of
             (opts, rs2) \<Rightarrow>
               (case label_options correct opts of
                  Inl e \<Rightarrow> Some (Inl e)
                | Inr r \<Rightarrow> Some (Inr (r, rs2)))))"

text \<open>
  \<^verbatim>\<open>mcq_options_small_set\<close> (\<^verbatim>\<open>mcq_options_small\<close> in \<^verbatim>\<open>untitled1.py\<close>):
  \<^verbatim>\<open>while len(chosen) < 5: chosen.add(random.choice(list(pool)))\<close>
\<close>

partial_function (option) mcq_small_loop ::
  "int set \<Rightarrow> int set \<Rightarrow> rand \<Rightarrow> (py_error + int set \<times> rand) option" where
  "mcq_small_loop pool chosen rs =
     (if card chosen < 5 then
        (case random_choice (list_of_set pool) rs of
           Inl e \<Rightarrow> Some (Inl e)
         | Inr (x, rs1) \<Rightarrow> mcq_small_loop pool (insert x chosen) rs1)
      else Some (Inr (chosen, rs)))"

definition mcq_options_small_set ::
  "int \<Rightarrow> int list \<Rightarrow> rand \<Rightarrow> (py_error + ((string \<times> string) list \<times> string) \<times> rand) option" where
  "mcq_options_small_set correct candidates rs =
     (case mcq_small_loop (insert correct (set candidates)) {correct} rs of
        None \<Rightarrow> None
      | Some (Inl e) \<Rightarrow> Some (Inl e)
      | Some (Inr (chosen, rs1)) \<Rightarrow>
          (case random_shuffle (list_of_set chosen) rs1 of
             (opts, rs2) \<Rightarrow>
               (case label_options correct opts of
                  Inl e \<Rightarrow> Some (Inl e)
                | Inr r \<Rightarrow> Some (Inr (r, rs2)))))"

subsection \<open>Questions\<close>

text \<open>
  The dimensions a generator samples for its figure. The source keeps them
  in local variables; the model returns them next to the question, together
  with the value of the local variable \<^verbatim>\<open>correct\<close>, so that statements about
  them can be made.
\<close>

datatype dims =
    Square_dims int
  | Rectangle_dims int int
  | Equilateral_dims int
  | Isosceles_dims int int
  | Scalene_dims int int int
  | Trapezium_dims int int int
  | Parallelogram_dims int int int
  | Circle_dims int
  | Ngon_dims nat int
  | No_dims

text \<open>
  The arguments are, in order: square \<open>s\<close>; rectangle \<open>w h\<close>; equilateral
  triangle \<open>s\<close>; isosceles triangle \<open>base height\<close>; scalene triangle \<open>a b c\<close>;
  trapezium \<open>top_side bottom h\<close>; parallelogram \<open>b h slant\<close>; circle \<open>r\<close>; regular
  polygon \<open>n s\<close>.
\<close>

datatype builder = Options_int | Options_small "int list"

record generated =
  qtext :: string
  opts :: "(string \<times> string) list"
  correct_letter :: string
  figure :: dims
  correct :: int

definition area_q :: string where
  "area_q = ''What is the area of the given shape?''"

definition perimeter_q :: string where
  "perimeter_q = ''What is the perimeter of the given shape?''"

definition circumference_q :: string where
  "circumference_q = ''What is the circumference of the given shape?''"

definition symmetry_q :: string where
  "symmetry_q = ''How many lines of symmetry does this shape contain?''"

text \<open>
  The unit of an area in a question text: \<^verbatim>\<open>cm\<close> followed by the superscript two
  (code point 178) in \<^verbatim>\<open>randomShapeGenerator.py\<close>, \<^verbatim>\<open>cm^2\<close> in \<^verbatim>\<open>untitled1.py\<close>.
\<close>

definition sq_unit :: "variant \<Rightarrow> string" where
  "sq_unit v = (case v of RandomShapeGenerator \<Rightarrow> '' cm'' @ [CHR 0xB2] | Untitled1 \<Rightarrow> '' cm^2'')"

definition given_area :: "variant \<Rightarrow> int \<Rightarrow> string \<Rightarrow> string" where
  "given_area v a what =
     ''The area is '' @ i2s a @ sq_unit v @ ''. Find the '' @ what @ '' (in cm).''"

definition given_perimeter :: "int \<Rightarrow> string \<Rightarrow> string" where
  "given_perimeter p what =
     ''The perimeter is '' @ i2s p @ '' cm. Find the '' @ what @ '' (in cm).''"

definition given_circumference :: "int \<Rightarrow> string" where
  "given_circumference c =
     ''The circumference is '' @ i2s c @ '' cm. Find the radius (in cm).''"

text \<open>\<^verbatim>\<open>math.hypot\<close>.\<close>

definition hypot :: "real \<Rightarrow> real \<Rightarrow> real" where
  "hypot x y = sqrt (x * x + y * y)"

text \<open>
  Every generator ends by calling one of the two option generators on its
  value \<^verbatim>\<open>correct\<close> and returning \<^verbatim>\<open>qtext, opts, letter\<close>.
\<close>

definition build_question ::
  "variant \<Rightarrow> dims \<Rightarrow> string \<times> int \<times> builder \<Rightarrow> rand \<Rightarrow> (py_error + generated \<times> rand) option" where
  "build_question v d q rs =
     (case q of (t, c, b) \<Rightarrow>
        (case (case b of Options_int \<Rightarrow> mcq_options_int v c rs
                      | Options_small pool \<Rightarrow> mcq_options_small_set c pool rs) of
           None \<Rightarrow> None
         | Some (Inl e) \<Rightarrow> Some (Inl e)
         | Some (Inr ((os, l), rs1)) \<Rightarrow>
             Some (Inr (\<lparr>qtext = t, opts = os, correct_letter = l, figure = d, correct = c\<rparr>, rs1))))"

subsection \<open>Shape generators\<close>

text \<open>
  Each generator of the source first samples its dimensions and then walks
  the chain \<^verbatim>\<open>if qtype == "area" ... elif "perimeter" ... elif "missing" ... else\<close>.
  The chain is modelled by a function \<open>\<dots>_question\<close> that yields the question
  text, the value \<^verbatim>\<open>correct\<close> and the option generator that the branch calls.
\<close>

definition square_question :: "variant \<Rightarrow> int \<Rightarrow> string \<Rightarrow> string \<times> int \<times> builder" where
  "square_question v s qtype =
     (if qtype = ''area'' then (area_q, s * s, Options_int)
      else if qtype = ''perimeter'' then (perimeter_q, 4 * s, Options_int)
      else if qtype = ''missing'' then (given_area v (s * s) ''side length'', s, Options_int)
      else (symmetry_q, 4, Options_small [0, 1, 2, 3, 4, 6]))"

definition gen_square :: "variant \<Rightarrow> int \<times> int \<Rightarrow> string \<Rightarrow> rand \<Rightarrow> (py_error + generated \<times> rand) option" where
  "gen_square v rng qtype rs =
     (case random_randint (fst rng) (snd rng) rs of
        Inl e \<Rightarrow> Some (Inl e)
      | Inr (s, rs1) \<Rightarrow> build_question v (Square_dims s) (square_question v s qtype) rs1)"

definition rectangle_question :: "variant \<Rightarrow> int \<Rightarrow> int \<Rightarrow> string \<Rightarrow> string \<times> int \<times> builder" where
  "rectangle_question v w h qtype =
     (if qtype = ''area'' then (area_q, w * h, Options_int)
      else if qtype = ''perimeter'' then (perimeter_q, 2 * (w + h), Options_int)
      else if qtype = ''missing'' then (given_area v (w * h) ''width'', w, Options_int)
      else (symmetry_q, 2, Options_small [0, 1, 2, 3, 4]))"

definition gen_rectangle :: "variant \<Rightarrow> int \<times> int \<Rightarrow> string \<Rightarrow> rand \<Rightarrow> (py_error + generated \<times> rand) option" where
  "gen_rectangle v rng qtype rs =
     (case random_randint (fst rng) (snd rng) rs of
        Inl e \<Rightarrow> Some (Inl e)
      | Inr (w0, rs1) \<Rightarrow>
          (case random_randint (fst rng) (snd rng) rs1 of
             Inl e \<Rightarrow> Some (Inl e)
           | Inr (h, rs2) \<Rightarrow>
               (let w = (if w0 = h then w0 + 1 else w0)
                in build_question v (Rectangle_dims w h) (rectangle_question v w h qtype) rs2)))"

definition equilateral_triangle_question :: "variant \<Rightarrow> int \<Rightarrow> string \<Rightarrow> string \<times> int \<times> builder" where
  "equilateral_triangle_question v s qtype =
     (if qtype = ''area'' then (area_q, clamp_int ((sqrt 3 / 4) * of_int s * of_int s), Options_int)
      else if qtype = ''perimeter'' then (perimeter_q, 3 * s, Options_int)
      else if qtype = ''missing'' then
        (given_area v (clamp_int ((sqrt 3 / 4) * of_int s * of_int s)) ''side length'', s, Options_int)
      else (symmetry_q, 3, Options_small [0, 1, 2, 3, 6]))"

definition gen_equilateral_triangle ::
  "variant \<Rightarrow> int \<times> int \<Rightarrow> string \<Rightarrow> rand \<Rightarrow> (py_error + generated \<times> rand) option" where
  "gen_equilateral_triangle v rng qtype rs =
     (case random_randint (fst rng) (snd rng) rs of
        Inl e \<Rightarrow> Some (Inl e)
      | Inr (s, rs1) \<Rightarrow>
          build_question v (Equilateral_dims s) (equilateral_triangle_question v s qtype) rs1)"

definition isosceles_triangle_question :: "variant \<Rightarrow> int \<Rightarrow> int \<Rightarrow> string \<Rightarrow> string \<times> int \<times> builder" where
  "isosceles_triangle_question v base height qtype =
     (if qtype = ''area'' then (area_q, clamp_int (0.5 * of_int base * of_int height), Options_int)
      else if qtype = ''perimeter'' then
        (perimeter_q, clamp_int (2 * hypot (of_int base / 2) (of_int height) + of_int base), Options_int)
      else if qtype = ''missing'' then
        (given_area v (clamp_int (0.5 * of_int base * of_int height)) ''height'', height, Options_int)
      else (symmetry_q, 1, Options_small [0, 1, 2, 3]))"

definition gen_isosceles_triangle ::
  "variant \<Rightarrow> int \<times> int \<Rightarrow> string \<Rightarrow> rand \<Rightarrow> (py_error + generated \<times> rand) option" where
  "gen_isosceles_triangle v rng qtype rs =
     (case random_randint (fst rng) (snd rng) rs of
        Inl e \<Rightarrow> Some (Inl e)
      | Inr (base, rs1) \<Rightarrow>
          (case random_randint (fst rng) (snd rng) rs1 of
             Inl e \<Rightarrow> Some (Inl e)
           | Inr (height, rs2) \<Rightarrow>
               build_question v (Isosceles_dims base height)
                 (isosceles_triangle_question v base height qtype) rs2))"

text \<open>
  The scalene triangle. \<^verbatim>\<open>randomShapeGenerator.py\<close> samples a triple and
  resamples while it is invalid, at most 100 times; \<^verbatim>\<open>untitled1.py\<close> samples
  up to 100 triples and leaves at the first one that is valid and has three
  different sides. Neither raises when the budget is used up: the triple
  sampled last stays.
\<close>

definition valid :: "int \<Rightarrow> int \<Rightarrow> int \<Rightarrow> bool" where
  "valid a b c \<longleftrightarrow> a + b > c \<and> a + c > b \<and> b + c > a"

definition sample_sides :: "int \<times> int \<Rightarrow> rand \<Rightarrow> py_error + (int \<times> int \<times> int) \<times> rand" where
  "sample_sides rng rs =
     (case random_randint (fst rng) (snd rng) rs of
        Inl e \<Rightarrow> Inl e
      | Inr (a, rs1) \<Rightarrow>
          (case random_randint (fst rng) (snd rng) rs1 of
             Inl e \<Rightarrow> Inl e
           | Inr (b, rs2) \<Rightarrow>
               (case random_randint (fst rng) (snd rng) rs2 of
                  Inl e \<Rightarrow> Inl e
                | Inr (c, rs3) \<Rightarrow> Inr ((a, b, c), rs3))))"

function scalene_resample ::
  "int \<times> int \<Rightarrow> int \<times> int \<times> int \<Rightarrow> nat \<Rightarrow> rand \<Rightarrow> py_error + (int \<times> int \<times> int) \<times> rand" where
  "scalene_resample rng t attempts rs =
     (case t of (a, b, c) \<Rightarrow>
        if \<not> valid a b c \<and> attempts < 100 then
          (case sample_sides rng rs of
             Inl e \<Rightarrow> Inl e
           | Inr (t1, rs1) \<Rightarrow> scalene_resample rng t1 (attempts + 1) rs1)
        else Inr (t, rs))"
  by pat_completeness auto
termination
  by (relation "measure (\<lambda>(rng, t, attempts, rs). 100 - attempts)") auto

function scalene_tries ::
  "int \<times> int \<Rightarrow> int \<times> int \<times> int \<Rightarrow> nat \<Rightarrow> rand \<Rightarrow> py_error + (int \<times> int \<times> int) \<times> rand" where
  "scalene_tries rng t tries rs =
     (if tries < 100 then
        (case sample_sides rng rs of
           Inl e \<Rightarrow> Inl e
         | Inr ((a, b, c), rs1) \<Rightarrow>
             if valid a b c \<and> card {a, b, c} = 3 then Inr ((a, b, c), rs1)
             else scalene_tries rng (a, b, c) (tries + 1) rs1)
      else Inr (t, rs))"
  by pat_completeness auto
termination
  by (relation "measure (\<lambda>(rng, t, tries, rs). 100 - tries)") auto

declare scalene_resample.simps [simp del] scalene_tries.simps [simp del]

definition sample_scalene :: "variant \<Rightarrow> int \<times> int \<Rightarrow> rand \<Rightarrow> py_error + (int \<times> int \<times> int) \<times> rand" where
  "sample_scalene v rng rs =
     (case v of
        RandomShapeGenerator \<Rightarrow>
          (case sample_sides rng rs of
             Inl e \<Rightarrow> Inl e
           | Inr (t, rs1) \<Rightarrow> scalene_resample rng t 0 rs1)
      | Untitled1 \<Rightarrow> scalene_tries rng (0, 0, 0) 0 rs)"

definition scalene_triangle_question :: "variant \<Rightarrow> int \<Rightarrow> int \<Rightarrow> int \<Rightarrow> string \<Rightarrow> string \<times> int \<times> builder" where
  "scalene_triangle_question v a b c qtype =
     (if qtype = ''area'' then
        (let s = 0.5 * of_int (a + b + c);
             area = sqrt (max (s * (s - of_int a) * (s - of_int b) * (s - of_int c)) 0)
         in (area_q, clamp_int area, Options_int))
      else if qtype = ''perimeter'' then (perimeter_q, a + b + c, Options_int)
      else if qtype = ''missing'' then (given_perimeter (a + b + c) ''missing side'', a, Options_int)
      else (symmetry_q, 0, Options_small [0, 1, 2, 3]))"

text \<open>
  The third corner is placed at \<^verbatim>\<open>x = (b*b + a*a - c*c) / (2.0 * a)\<close>, a float
  division that raises ZeroDivisionError for \<open>a = 0\<close>.
\<close>

definition gen_scalene_triangle ::
  "variant \<Rightarrow> int \<times> int \<Rightarrow> string \<Rightarrow> rand \<Rightarrow> (py_error + generated \<times> rand) option" where
  "gen_scalene_triangle v rng qtype rs =
     (case sample_scalene v rng rs of
        Inl e \<Rightarrow> Some (Inl e)
      | Inr ((a, b, c), rs1) \<Rightarrow>
          if a = 0 then Some (Inl ZeroDivisionError)
          else build_question v (Scalene_dims a b c) (scalene_triangle_question v a b c qtype) rs1)"

text \<open>
  The isosceles trapezium. \<^verbatim>\<open>randomShapeGenerator.py\<close>:
  \<^verbatim>\<open>bottom = random.randint(max(top + 2, rng[0]+2), rng[1] + max(0, top - rng[0]))\<close>
  \<^verbatim>\<open>bottom = min(bottom, max(top + 2, rng[1]))\<close>;
  \<^verbatim>\<open>untitled1.py\<close>:
  \<^verbatim>\<open>bottom = random.randint(max(top + 2, rng[0] + 2), max(top + 2, rng[1]))\<close>.
\<close>

definition sample_bottom :: "variant \<Rightarrow> int \<times> int \<Rightarrow> int \<Rightarrow> rand \<Rightarrow> py_error + int \<times> rand" where
  "sample_bottom v rng top_side rs =
     (case v of
        RandomShapeGenerator \<Rightarrow>
          (case random_randint (max (top_side + 2) (fst rng + 2)) (snd rng + max 0 (top_side - fst rng)) rs of
             Inl e \<Rightarrow> Inl e
           | Inr (bottom, rs1) \<Rightarrow> Inr (min bottom (max (top_side + 2) (snd rng)), rs1))
      | Untitled1 \<Rightarrow>
          random_randint (max (top_side + 2) (fst rng + 2)) (max (top_side + 2) (snd rng)) rs)"

definition trapezium_question :: "variant \<Rightarrow> int \<Rightarrow> int \<Rightarrow> int \<Rightarrow> string \<Rightarrow> string \<times> int \<times> builder" where
  "trapezium_question v top_side bottom h qtype =
     (if qtype = ''area'' then (area_q, clamp_int (of_int ((top_side + bottom) * h) / 2), Options_int)
      else if qtype = ''perimeter'' then
        (perimeter_q,
         clamp_int (of_int (top_side + bottom) + 2 * hypot (of_int (bottom - top_side) / 2) (of_int h)),
         Options_int)
      else if qtype = ''missing'' then
        (given_area v (clamp_int (of_int ((top_side + bottom) * h) / 2)) ''height'', h, Options_int)
      else (symmetry_q, 1, Options_small [0, 1, 2, 3]))"

definition gen_trapezium :: "variant \<Rightarrow> int \<times> int \<Rightarrow> string \<Rightarrow> rand \<Rightarrow> (py_error + generated \<times> rand) option" where
  "gen_trapezium v rng qtype rs =
     (case random_randint (fst rng) (snd rng) rs of
        Inl e \<Rightarrow> Some (Inl e)
      | Inr (top_side, rs1) \<Rightarrow>
          (case sample_bottom v rng top_side rs1 of
             Inl e \<Rightarrow> Some (Inl e)
           | Inr (bottom, rs2) \<Rightarrow>
               (case random_randint (fst rng) (snd rng) rs2 of
                  Inl e \<Rightarrow> Some (Inl e)
                | Inr (h, rs3) \<Rightarrow>
                    build_question v (Trapezium_dims top_side bottom h)
                      (trapezium_question v top_side bottom h qtype) rs3)))"

definition parallelogram_question :: "variant \<Rightarrow> int \<Rightarrow> int \<Rightarrow> int \<Rightarrow> string \<Rightarrow> string \<times> int \<times> builder" where
  "parallelogram_question v b h slant qtype =
     (if qtype = ''area'' then (area_q, b * h, Options_int)
      else if qtype = ''perimeter'' then
        (perimeter_q, clamp_int (2 * (of_int b + hypot (of_int slant) (of_int h))), Options_int)
      else if qtype = ''missing'' then (given_area v (b * h) ''base'', b, Options_int)
      else (symmetry_q, 0, Options_small [0, 1, 2, 3]))"

definition gen_parallelogram ::
  "variant \<Rightarrow> int \<times> int \<Rightarrow> string \<Rightarrow> rand \<Rightarrow> (py_error + generated \<times> rand) option" where
  "gen_parallelogram v rng qtype rs =
     (case random_randint (fst rng) (snd rng) rs of
        Inl e \<Rightarrow> Some (Inl e)
      | Inr (b, rs1) \<Rightarrow>
          (case random_randint (fst rng) (snd rng) rs1 of
             Inl e \<Rightarrow> Some (Inl e)
           | Inr (h, rs2) \<Rightarrow>
               (case random_randint 1 (max 2 (min 10 (b div 2))) rs2 of
                  Inl e \<Rightarrow> Some (Inl e)
                | Inr (slant, rs3) \<Rightarrow>
                    build_question v (Parallelogram_dims b h slant)
                      (parallelogram_question v b h slant qtype) rs3)))"

text \<open>The last branch of the circle, taken for any other question type, asks for the circumference.\<close>

definition circle_question :: "variant \<Rightarrow> int \<Rightarrow> string \<Rightarrow> string \<times> int \<times> builder" where
  "circle_question v r qtype =
     (if qtype = ''area'' then (area_q, clamp_int (pi * of_int r * of_int r), Options_int)
      else if qtype = ''perimeter'' then (circumference_q, clamp_int (2 * pi * of_int r), Options_int)
      else if qtype = ''missing'' then
        (given_circumference (clamp_int (2 * pi * of_int r)), r, Options_int)
      else (circumference_q, clamp_int (2 * pi * of_int r), Options_int))"

definition gen_circle :: "variant \<Rightarrow> int \<times> int \<Rightarrow> string \<Rightarrow> rand \<Rightarrow> (py_error + generated \<times> rand) option" where
  "gen_circle v rng qtype rs =
     (case random_randint (fst rng) (snd rng) rs of
        Inl e \<Rightarrow> Some (Inl e)
      | Inr (r, rs1) \<Rightarrow> build_question v (Circle_dims r) (circle_question v r qtype) rs1)"

text \<open>
  The regular polygon with \<open>n\<close> sides; the source calls it with \<open>n = 6\<close> and
  \<open>n = 5\<close> only. The candidate pool of the symmetry question is
  \<^verbatim>\<open>list(range(0, n+1))\<close> in \<^verbatim>\<open>randomShapeGenerator.py\<close> and
  \<^verbatim>\<open>list(range(0, max(8, n+1)))\<close> in \<^verbatim>\<open>untitled1.py\<close>.
\<close>

definition ngon_pool :: "variant \<Rightarrow> nat \<Rightarrow> int list" where
  "ngon_pool v n =
     (case v of
        RandomShapeGenerator \<Rightarrow> map int [0..<n + 1]
      | Untitled1 \<Rightarrow> map int [0..<max 8 (n + 1)])"

definition regular_ngon_question :: "variant \<Rightarrow> nat \<Rightarrow> int \<Rightarrow> string \<Rightarrow> string \<times> int \<times> builder" where
  "regular_ngon_question v n s qtype =
     (if qtype = ''area'' then
        (area_q, clamp_int (of_int (int n * s * s) / (4 * tan (pi / of_nat n))), Options_int)
      else if qtype = ''perimeter'' then (perimeter_q, int n * s, Options_int)
      else if qtype = ''missing'' then (given_perimeter (int n * s) ''side length'', s, Options_int)
      else (symmetry_q, int n, Options_small (ngon_pool v n)))"

definition gen_regular_ngon ::
  "variant \<Rightarrow> int \<times> int \<Rightarrow> string \<Rightarrow> nat \<Rightarrow> rand \<Rightarrow> (py_error + generated \<times> rand) option" where
  "gen_regular_ngon v rng qtype n rs =
     (case random_randint (fst rng) (snd rng) rs of
        Inl e \<Rightarrow> Some (Inl e)
      | Inr (s, rs1) \<Rightarrow>
          if n = 0 then Some (Inl ZeroDivisionError)
          else build_question v (Ngon_dims n s) (regular_ngon_question v n s qtype) rs1)"

subsection \<open>Main question generator\<close>

definition DIFF_RANGES :: "(string \<times> int \<times> int) list" where
  "DIFF_RANGES = [(''easy'', (1, 10)), (''medium'', (11, 50)), (''difficult'', (51, 100))]"

definition DIFF_LIST :: "string list" where
  "DIFF_LIST = map fst DIFF_RANGES"

definition SHAPES :: "string list" where
  "SHAPES = [''square'', ''rectangle'', ''equilateral_triangle'', ''isosceles_triangle'',
     ''scalene_triangle'', ''trapezium'', ''parallelogram'', ''circle'',
     ''regular_hexagon'', ''regular_pentagon'']"

definition Q_TYPES :: "string list" where
  "Q_TYPES = [''area'', ''perimeter'', ''missing'', ''symmetry'']"

text \<open>
  \<^verbatim>\<open>gen_one\<close>: \<^verbatim>\<open>DIFF_RANGES[diff]\<close> raises KeyError for an unknown difficulty.
  For a shape outside the catalogue \<^verbatim>\<open>randomShapeGenerator.py\<close> returns an
  area question built by \<^verbatim>\<open>mcq_options_int(1)\<close>, \<^verbatim>\<open>untitled1.py\<close> returns
  \<^verbatim>\<open>gen_square(ax, rng, "area")\<close>.
\<close>

definition gen_one :: "variant \<Rightarrow> string \<Rightarrow> string \<Rightarrow> rand \<Rightarrow> (py_error + generated \<times> rand) option" where
  "gen_one v shape diff rs =
     (case map_of DIFF_RANGES diff of
        None \<Rightarrow> Some (Inl KeyError)
      | Some rng \<Rightarrow>
          (case random_choice (if shape \<noteq> ''circle'' then Q_TYPES
                               else [''area'', ''perimeter'', ''missing'']) rs of
             Inl e \<Rightarrow> Some (Inl e)
           | Inr (qtype, rs1) \<Rightarrow>
               if shape = ''square'' then gen_square v rng qtype rs1
               else if shape = ''rectangle'' then gen_rectangle v rng qtype rs1
               else if shape = ''equilateral_triangle'' then gen_equilateral_triangle v rng qtype rs1
               else if shape = ''isosceles_triangle'' then gen_isosceles_triangle v rng qtype rs1
               else if shape = ''scalene_triangle'' then gen_scalene_triangle v rng qtype rs1
               else if shape = ''trapezium'' then gen_trapezium v rng qtype rs1
               else if shape = ''parallelogram'' then gen_parallelogram v rng qtype rs1
               else if shape = ''circle'' then gen_circle v rng qtype rs1
               else if shape = ''regular_hexagon'' then gen_regular_ngon v rng qtype 6 rs1
               else if shape = ''regular_pentagon'' then gen_regular_ngon v rng qtype 5 rs1
               else (case v of
                       RandomShapeGenerator \<Rightarrow> build_question v No_dims (area_q, 1, Options_int) rs1
                     | Untitled1 \<Rightarrow> gen_square v rng ''area'' rs1)))"

subsection \<open>Records and the manifest\<close>

text \<open>
  One element of \<^verbatim>\<open>questions.json\<close>; the fields carry the keys of the JSON
  object. \<^verbatim>\<open>img_path = os.path.join(BASE_IMG_DIR, diff, f"Q{idx}.png")\<close>.
\<close>

record entry =
  question :: string
  correct_answer :: string
  options :: "(string \<times> string) list"
  difficulty_level :: string
  img_path :: string

definition BASE_IMG_DIR :: string where
  "BASE_IMG_DIR = ''images''"

definition image_path :: "string \<Rightarrow> int \<Rightarrow> string" where
  "image_path diff idx = BASE_IMG_DIR @ ''/'' @ diff @ ''/'' @ ''Q'' @ i2s idx @ ''.png''"

text \<open>
  The record of one question. \<^verbatim>\<open>randomShapeGenerator.py\<close> (body of the loop of
  \<^verbatim>\<open>main\<close>) stores \<^verbatim>\<open>options[correct_letter]\<close> under \<^verbatim>\<open>"correct_answer"\<close>, a
  lookup that raises KeyError for a missing key; \<^verbatim>\<open>untitled1.py\<close>
  (\<^verbatim>\<open>build_one\<close>) stores \<^verbatim>\<open>correct_letter\<close>.
\<close>

definition make_entry :: "variant \<Rightarrow> generated \<Rightarrow> string \<Rightarrow> int \<Rightarrow> py_error + entry" where
  "make_entry v g diff idx =
     (case v of
        RandomShapeGenerator \<Rightarrow>
          (case map_of (opts g) (correct_letter g) of
             None \<Rightarrow> Inl KeyError
           | Some a \<Rightarrow>
               Inr \<lparr>question = qtext g, correct_answer = a, options = opts g,
                    difficulty_level = diff, img_path = image_path diff idx\<rparr>)
      | Untitled1 \<Rightarrow>
          Inr \<lparr>question = qtext g, correct_answer = correct_letter g, options = opts g,
               difficulty_level = diff, img_path = image_path diff idx\<rparr>)"

definition build_one :: "variant \<Rightarrow> int \<Rightarrow> rand \<Rightarrow> (py_error + entry \<times> rand) option" where
  "build_one v idx rs =
     (case random_choice DIFF_LIST rs of
        Inl e \<Rightarrow> Some (Inl e)
      | Inr (diff, rs1) \<Rightarrow>
          (case random_choice SHAPES rs1 of
             Inl e \<Rightarrow> Some (Inl e)
           | Inr (shape, rs2) \<Rightarrow>
               (case gen_one v shape diff rs2 of
                  None \<Rightarrow> None
                | Some (Inl e) \<Rightarrow> Some (Inl e)
                | Some (Inr (g, rs3)) \<Rightarrow>
                    (case make_entry v g diff idx of
                       Inl e \<Rightarrow> Some (Inl e)
                     | Inr r \<Rightarrow> Some (Inr (r, rs3))))))"

text \<open>
  \<^verbatim>\<open>main\<close> of \<^verbatim>\<open>untitled1.py\<close> submits \<^verbatim>\<open>build_one(i)\<close> for \<open>i = 1, \<dots>, N\<close> to a
  thread pool, appends the results in the order in which the workers
  complete, sorts the list by \<^verbatim>\<open>r["img_path"]\<close> and writes it. The argument
  of the model is the list of the workers' results in completion order;
  Python compares strings code point by code point, which is the
  lexicographic order on character lists.
\<close>

definition main_manifest :: "entry list \<Rightarrow> entry list" where
  "main_manifest out = sort_key img_path out"

subsection \<open>The formula table of the specification\<close>

text \<open>
  The closed-form formulas the specification attaches to each shape, for
  comparison with the values the generators compute.
\<close>

fun area_formula :: "dims \<Rightarrow> real" where
  "area_formula (Square_dims s) = of_int s * of_int s"
| "area_formula (Rectangle_dims w h) = of_int w * of_int h"
| "area_formula (Equilateral_dims s) = (sqrt 3 / 4) * (of_int s)\<^sup>2"
| "area_formula (Isosceles_dims base height) = of_int base * of_int height / 2"
| "area_formula (Scalene_dims a b c) =
     (let s = of_int (a + b + c) / 2
      in sqrt (max (s * (s - of_int a) * (s - of_int b) * (s - of_int c)) 0))"
| "area_formula (Trapezium_dims t b h) = of_int (t + b) * of_int h / 2"
| "area_formula (Parallelogram_dims b h slant) = of_int b * of_int h"
| "area_formula (Circle_dims r) = pi * (of_int r)\<^sup>2"
| "area_formula (Ngon_dims n s) = of_nat n * (of_int s)\<^sup>2 / (4 * tan (pi / of_nat n))"
| "area_formula No_dims = 0"

fun perimeter_formula :: "dims \<Rightarrow> real" where
  "perimeter_formula (Square_dims s) = 4 * of_int s"
| "perimeter_formula (Rectangle_dims w h) = 2 * (of_int w + of_int h)"
| "perimeter_formula (Equilateral_dims s) = 3 * of_int s"
| "perimeter_formula (Isosceles_dims base height) =
     of_int base + 2 * sqrt ((of_int base / 2)\<^sup>2 + (of_int height)\<^sup>2)"
| "perimeter_formula (Scalene_dims a b c) = of_int a + of_int b + of_int c"
| "perimeter_formula (Trapezium_dims t b h) =
     of_int t + of_int b + 2 * sqrt ((of_int (b - t) / 2)\<^sup>2 + (of_int h)\<^sup>2)"
| "perimeter_formula (Parallelogram_dims b h slant) =
     2 * (of_int b + sqrt ((of_int slant)\<^sup>2 + (of_int h)\<^sup>2))"
| "perimeter_formula (Circle_dims r) = 2 * pi * of_int r"
| "perimeter_formula (Ngon_dims n s) = of_nat n * of_int s"
| "perimeter_formula No_dims = 0"

text \<open>
  The missing-dimension question of a shape hides one dimension and states
  one known quantity in its text. \<open>with_hidden d x\<close> is the figure \<open>d\<close> with
  the hidden dimension set to \<open>x\<close>.
\<close>

fun with_hidden :: "dims \<Rightarrow> int \<Rightarrow> dims" where
  "with_hidden (Square_dims s) x = Square_dims x"
| "with_hidden (Rectangle_dims w h) x = Rectangle_dims x h"
| "with_hidden (Equilateral_dims s) x = Equilateral_dims x"
| "with_hidden (Isosceles_dims base height) x = Isosceles_dims base x"
| "with_hidden (Scalene_dims a b c) x = Scalene_dims x b c"
| "with_hidden (Trapezium_dims t b h) x = Trapezium_dims t b x"
| "with_hidden (Parallelogram_dims b h slant) x = Parallelogram_dims x h slant"
| "with_hidden (Circle_dims r) x = Circle_dims x"
| "with_hidden (Ngon_dims n s) x = Ngon_dims n x"
| "with_hidden No_dims x = No_dims"

text \<open>
  The known quantity that the missing-dimension question of a shape tells:
  the perimeter of the scalene triangle and of the regular polygons, the
  circumference of the circle, the area of every other shape. Its value is
  the exact value of the formula table.
\<close>

fun known_name :: "dims \<Rightarrow> string" where
  "known_name (Scalene_dims a b c) = ''perimeter''"
| "known_name (Circle_dims r) = ''circumference''"
| "known_name (Ngon_dims n s) = ''perimeter''"
| "known_name d = ''area''"

fun known_quantity :: "dims \<Rightarrow> real" where
  "known_quantity (Scalene_dims a b c) = perimeter_formula (Scalene_dims a b c)"
| "known_quantity (Circle_dims r) = perimeter_formula (Circle_dims r)"
| "known_quantity (Ngon_dims n s) = perimeter_formula (Ngon_dims n s)"
| "known_quantity d = area_formula d"

text \<open>
  Reading a question text: \<open>starts_with p s\<close> holds when the text \<open>s\<close> begins
  with \<open>p\<close>; \<open>stated_quantity s\<close> is the first number written in \<open>s\<close>, a run
  of decimal digits with an optional minus sign in front, and \<open>None\<close> for a
  text without a number.
\<close>

definition starts_with :: "string \<Rightarrow> string \<Rightarrow> bool" where
  "starts_with p s \<longleftrightarrow> take (length p) s = p"

definition is_digit :: "char \<Rightarrow> bool" where
  "is_digit c \<longleftrightarrow> c \<in> set ''0123456789''"

fun digit_val :: "char \<Rightarrow> nat" where
  "digit_val c = of_char c - 48"

definition digits_val :: "string \<Rightarrow> nat" where
  "digits_val s = foldl (\<lambda>a c. 10 * a + digit_val c) 0 s"

definition stated_quantity :: "string \<Rightarrow> int option" where
  "stated_quantity s =
     (case dropWhile (\<lambda>c. \<not> is_digit c \<and> c \<noteq> CHR ''-'') s of
        [] \<Rightarrow> None
      | c # r \<Rightarrow>
          if c = CHR ''-'' then
            (case takeWhile is_digit r of
               [] \<Rightarrow> None
             | ds \<Rightarrow> Some (- int (digits_val ds)))
          else Some (int (digits_val (takeWhile is_digit (c # r)))))"

text \<open>The question chain that belongs to a figure.\<close>

fun question_of :: "variant \<Rightarrow> dims \<Rightarrow> string \<Rightarrow> string \<times> int \<times> builder" where
  "question_of v (Square_dims s) qtype = square_question v s qtype"
| "question_of v (Rectangle_dims w h) qtype = rectangle_question v w h qtype"
| "question_of v (Equilateral_dims s) qtype = equilateral_triangle_question v s qtype"
| "question_of v (Isosceles_dims base height) qtype = isosceles_triangle_question v base height qtype"
| "question_of v (Scalene_dims a b c) qtype = scalene_triangle_question v a b c qtype"
| "question_of v (Trapezium_dims t b h) qtype = trapezium_question v t b h qtype"
| "question_of v (Parallelogram_dims b h slant) qtype = parallelogram_question v b h slant qtype"
| "question_of v (Circle_dims r) qtype = circle_question v r qtype"
| "question_of v (Ngon_dims n s) qtype = regular_ngon_question v n s qtype"
| "question_of v No_dims qtype = (area_q, 1, Options_int)"

text \<open>
  The ranges the generators keep. Dimensions drawn by
  \<^verbatim>\<open>random.randint(*rng)\<close> lie in the range of the tier. The width of a
  rectangle is moved up by one when it equals the height; the bottom of a
  trapezium is at least two longer than its top, also where that passes the
  upper end of the range; the slant of a parallelogram is drawn from 1 to 10
  for every tier.
\<close>

fun dims_in_tier :: "int \<times> int \<Rightarrow> dims \<Rightarrow> bool" where
  "dims_in_tier (lo, hi) (Square_dims s) \<longleftrightarrow> lo \<le> s \<and> s \<le> hi"
| "dims_in_tier (lo, hi) (Rectangle_dims w h) \<longleftrightarrow>
     lo \<le> h \<and> h \<le> hi \<and> lo \<le> w \<and> w \<noteq> h \<and> (w \<noteq> h + 1 \<longrightarrow> w \<le> hi)"
| "dims_in_tier (lo, hi) (Equilateral_dims s) \<longleftrightarrow> lo \<le> s \<and> s \<le> hi"
| "dims_in_tier (lo, hi) (Isosceles_dims base height) \<longleftrightarrow>
     lo \<le> base \<and> base \<le> hi \<and> lo \<le> height \<and> height \<le> hi"
| "dims_in_tier (lo, hi) (Scalene_dims a b c) \<longleftrightarrow>
     lo \<le> a \<and> a \<le> hi \<and> lo \<le> b \<and> b \<le> hi \<and> lo \<le> c \<and> c \<le> hi"
| "dims_in_tier (lo, hi) (Trapezium_dims t b h) \<longleftrightarrow>
     lo \<le> t \<and> t \<le> hi \<and> lo \<le> h \<and> h \<le> hi \<and> t + 2 \<le> b \<and> b \<le> max (t + 2) hi"
| "dims_in_tier (lo, hi) (Parallelogram_dims b h slant) \<longleftrightarrow>
     lo \<le> b \<and> b \<le> hi \<and> lo \<le> h \<and> h \<le> hi \<and> 1 \<le> slant \<and> slant \<le> 10"
| "dims_in_tier (lo, hi) (Circle_dims r) \<longleftrightarrow> lo \<le> r \<and> r \<le> hi"
| "dims_in_tier (lo, hi) (Ngon_dims n s) \<longleftrightarrow> lo \<le> s \<and> s \<le> hi"
| "dims_in_tier (lo, hi) No_dims \<longleftrightarrow> True"

subsection \<open>Auxiliary notions of the proofs\<close>

text \<open>What a run returns, without the rest of the random source.\<close>

definition outcome :: "(py_error + 'a \<times> rand) option \<Rightarrow> (py_error + 'a) option" where
  "outcome r = map_option (map_sum id fst) r"

definition assembled :: "int \<Rightarrow> int list \<Rightarrow> (string \<times> string) list \<Rightarrow> string \<Rightarrow> bool" where
  "assembled c xs os l \<longleftrightarrow>
     length xs = 5 \<and> distinct xs \<and> os = zip labels (map i2s xs) \<and> (\<exists>k<5. xs ! k = c \<and> l = labels ! k)"

definition fixed_texts :: "string set" where
  "fixed_texts = {area_q, perimeter_q, circumference_q, symmetry_q}"

definition classified :: "variant \<Rightarrow> dims \<Rightarrow> string \<times> int \<times> builder \<Rightarrow> bool" where
  "classified v d q \<longleftrightarrow> (case q of (t, c, b) \<Rightarrow>
     (t = area_q \<and> c = clamp_int (area_formula d) \<and> b = Options_int) \<or>
     ((t = perimeter_q \<or> t = circumference_q) \<and> c = clamp_int (perimeter_formula d) \<and> b = Options_int) \<or>
     (t \<notin> fixed_texts \<and> starts_with (''The '' @ known_name d @ '' is '') t \<and>
      stated_quantity t = Some (clamp_int (known_quantity d)) \<and>
      with_hidden d c = d \<and> b = Options_int) \<or>
     (t = symmetry_q \<and> 0 \<le> c \<and> (\<exists>pool. b = Options_small pool \<and> (\<forall>x\<in>set pool. 0 \<le> x))))"

definition built :: "variant \<Rightarrow> int \<times> int \<Rightarrow> string \<Rightarrow> generated \<Rightarrow> rand \<Rightarrow> dims \<Rightarrow> bool" where
  "built v rng qt g rs' d \<longleftrightarrow> dims_in_tier rng d \<and>
     (\<exists>rs1. build_question v d (question_of v d qt) rs1 = Some (Inr (g, rs')))"

text \<open>The record that \<^verbatim>\<open>build_one\<close> returns on the concrete random source used below.\<close>

definition sample_entry :: "int \<Rightarrow> entry" where
  "sample_entry idx =
     \<lparr>question = area_q, correct_answer = ''B'',
      options = [(''A'', ''22''), (''B'', ''25''), (''C'', ''26''), (''D'', ''27''), (''E'', ''21'')],
      difficulty_level = ''easy'', img_path = image_path ''easy'' idx\<rparr>"

text \<open>
  The random source after \<open>k\<close> draws; the triple that the \<open>k\<close>-th round of the
  scalene sampling draws from a source; the test a triple has to pass to end
  the sampling, and the number of triples sampled at most.
\<close>

definition advance :: "nat \<Rightarrow> rand \<Rightarrow> rand" where
  "advance k rs = (\<lambda>i. rs (i + k))"

definition triple_at :: "int \<times> int \<Rightarrow> rand \<Rightarrow> nat \<Rightarrow> py_error + (int \<times> int \<times> int) \<times> rand" where
  "triple_at rng rs k = sample_sides rng (advance (3 * k) rs)"

definition accepted :: "variant \<Rightarrow> int \<times> int \<times> int \<Rightarrow> bool" where
  "accepted v t =
     (case t of (a, b, c) \<Rightarrow>
        (case v of RandomShapeGenerator \<Rightarrow> valid a b c
                 | Untitled1 \<Rightarrow> valid a b c \<and> card {a, b, c} = 3))"

definition budget :: "variant \<Rightarrow> nat" where
  "budget v = (case v of RandomShapeGenerator \<Rightarrow> 101 | Untitled1 \<Rightarrow> 100)"

text \<open>
  The candidate value that round \<open>k\<close> of the loop of \<^verbatim>\<open>mcq_options_int\<close> draws
  from a source (each round takes two draws), and the positive candidates
  of the first \<open>n\<close> rounds.
\<close>

definition candidate_at :: "variant \<Rightarrow> int \<Rightarrow> int \<Rightarrow> rand \<Rightarrow> nat \<Rightarrow> int" where
  "candidate_at v c l rs k =
     (case random_randint 1 l (advance (2 * k) rs) of
        Inl e \<Rightarrow> c
      | Inr (delta, rs1) \<Rightarrow>
          (case draw_val v c delta rs1 of Inl e \<Rightarrow> c | Inr (val, rs2) \<Rightarrow> val))"

definition collected :: "variant \<Rightarrow> int \<Rightarrow> int \<Rightarrow> rand \<Rightarrow> nat \<Rightarrow> int set" where
  "collected v c l rs n = {x. \<exists>k<n. candidate_at v c l rs k = x \<and> 0 < x}"

section \<open>Properties\<close>

subsection \<open>Basic facts\<close>

lemma rest_draws [simp]: "rest (draws (x # xs)) = draws xs"
  by (auto simp: rest_def draws_def fun_eq_iff)

lemma draws_0 [simp]: "draws (x # xs) 0 = x"
  by (simp add: draws_def)

lemma draws_Nil [simp]: "draws [] i = 0" "rest (draws []) = draws []"
  by (auto simp: rest_def draws_def fun_eq_iff)

lemma randbelow_draws [simp]: "randbelow n (draws (x # xs)) = (x mod n, draws xs)"
  by (simp add: randbelow_def)

lemma randbelow_less: "0 < n \<Longrightarrow> fst (randbelow n rs) < n"
  by (simp add: randbelow_def)

lemma random_randint_range:
  assumes "random_randint a b rs = Inr (x, rs1)"
  shows "a \<le> x \<and> x \<le> b"
proof -
  from assms have le: "a \<le> b" and x: "x = a + int (rs 0 mod nat (b - a + 1))"
    by (auto simp: random_randint_def randbelow_def split: if_splits)
  from le have "0 < nat (b - a + 1)" by simp
  then have "rs 0 mod nat (b - a + 1) < nat (b - a + 1)" by (rule mod_less_divisor)
  with le have "int (rs 0 mod nat (b - a + 1)) < b - a + 1" by linarith
  with x show ?thesis by simp
qed

lemma random_choice_mem:
  "random_choice seq rs = Inr (x, rs1) \<Longrightarrow> x \<in> set seq"
  unfolding random_choice_def randbelow_def
  by (auto split: if_splits)

lemma shuffle_loop_mset:
  "i < length x \<Longrightarrow> shuffle_loop i x rs = (y, rs1) \<Longrightarrow> mset y = mset x"
proof (induction i arbitrary: x rs)
  case 0
  then show ?case by simp
next
  case (Suc i)
  obtain j rs2 where j: "randbelow (Suc i + 1) rs = (j, rs2)" by (cases "randbelow (Suc i + 1) rs")
  have "j < Suc i + 1" using randbelow_less[of "Suc i + 1" rs] j by simp
  then have jl: "j < length x" using Suc.prems by simp
  let ?x = "x[Suc i := x ! j, j := x ! Suc i]"
  have "shuffle_loop i ?x rs2 = (y, rs1)" using Suc.prems j by simp
  moreover have "i < length ?x" using Suc.prems by simp
  ultimately have "mset y = mset ?x" by (rule Suc.IH[rotated])
  also have "mset ?x = mset x" using mset_swap[OF jl, of "Suc i"] Suc.prems by simp
  finally show ?case .
qed

lemma random_shuffle_mset: "random_shuffle x rs = (y, rs1) \<Longrightarrow> mset y = mset x"
  unfolding random_shuffle_def
  by (cases "x = []") (auto intro: shuffle_loop_mset[where i="length x - 1"])

lemma digit_val_digit_char: "d < 10 \<Longrightarrow> digit_val (digit_char d) = d"
proof -
  assume "d < 10"
  then have "d \<in> {0,1,2,3,4,5,6,7,8,9}" by auto
  then show ?thesis by (auto simp: digit_char_def)
qed

lemma digit_char_is_digit: "d < 10 \<Longrightarrow> digit_char d \<in> set ''0123456789''"
  unfolding digit_char_def by (rule nth_mem) simp

lemma digits_val_snoc: "digits_val (s @ [c]) = 10 * digits_val s + digit_val c"
  by (simp add: digits_val_def)

lemma digits_val_nat_digits: "digits_val (nat_digits n) = n"
proof (induction n rule: nat_digits.induct)
  case (1 n)
  show ?case
  proof (cases "n < 10")
    case True
    then show ?thesis
      by (subst nat_digits.simps) (simp add: digits_val_def digit_val_digit_char del: digit_val.simps)
  next
    case False
    have "n mod 10 < 10" by simp
    with False 1 show ?thesis
      by (subst nat_digits.simps) (simp add: digits_val_snoc digit_val_digit_char del: digit_val.simps)
  qed
qed

lemma nat_digits_chars: "set (nat_digits n) \<subseteq> set ''0123456789''"
proof (induction n rule: nat_digits.induct)
  case (1 n)
  show ?case
  proof (cases "n < 10")
    case True
    then show ?thesis using digit_char_is_digit[of n]
      by (subst nat_digits.simps) simp
  next
    case False
    have "n mod 10 < 10" by simp
    then have "digit_char (n mod 10) \<in> set ''0123456789''" by (rule digit_char_is_digit)
    with False 1 show ?thesis
      by (subst nat_digits.simps) simp
  qed
qed

lemma nat_digits_not_Nil: "nat_digits n \<noteq> []"
  by (subst nat_digits.simps) simp

lemma nat_digits_inj: "nat_digits a = nat_digits b \<Longrightarrow> a = b"
  by (metis digits_val_nat_digits)

lemma nat_digits_no_minus: "nat_digits n \<noteq> CHR ''-'' # s"
proof
  assume "nat_digits n = CHR ''-'' # s"
  then have "CHR ''-'' \<in> set (nat_digits n)" by simp
  with nat_digits_chars[of n] show False by auto
qed

lemma i2s_inj: "i2s a = i2s b \<Longrightarrow> a = b"
proof -
  assume e: "i2s a = i2s b"
  consider "a < 0" "b < 0" | "a < 0" "\<not> b < 0" | "\<not> a < 0" "b < 0" | "\<not> a < 0" "\<not> b < 0" by blast
  then show ?thesis
  proof cases
    case 1
    with e have "nat_digits (nat (- a)) = nat_digits (nat (- b))" by (simp add: i2s_def)
    then have "nat (- a) = nat (- b)" by (rule nat_digits_inj)
    with 1 show ?thesis by simp
  next
    case 2
    with e have "nat_digits (nat b) = CHR ''-'' # nat_digits (nat (- a))" by (simp add: i2s_def)
    then show ?thesis using nat_digits_no_minus by blast
  next
    case 3
    with e have "nat_digits (nat a) = CHR ''-'' # nat_digits (nat (- b))" by (simp add: i2s_def)
    then show ?thesis using nat_digits_no_minus by blast
  next
    case 4
    with e have "nat_digits (nat a) = nat_digits (nat b)" by (simp add: i2s_def)
    then have "nat a = nat b" by (rule nat_digits_inj)
    with 4 show ?thesis by simp
  qed
qed

lemma i2s_chars: "set (i2s n) \<subseteq> set ''-0123456789''"
proof -
  have d: "set ''-0123456789'' = insert CHR ''-'' (set ''0123456789'')" by simp
  show ?thesis
  proof (cases "n < 0")
    case True
    then have "set (i2s n) = insert CHR ''-'' (set (nat_digits (nat (- n))))" by (simp add: i2s_def)
    with nat_digits_chars[of "nat (- n)"] show ?thesis unfolding d by blast
  next
    case False
    then have "set (i2s n) = set (nat_digits (nat n))" by (simp add: i2s_def)
    with nat_digits_chars[of "nat n"] show ?thesis unfolding d by blast
  qed
qed

lemma i2s_not_label: "i2s n \<notin> set labels"
proof
  assume "i2s n \<in> set labels"
  then have "\<exists>c \<in> set ''ABCDE''. c \<in> set (i2s n)" by (auto simp: labels_def)
  with i2s_chars[of n] show False by auto
qed

subsection \<open>The option generators\<close>

lemma mcq_int_loop_result_aux:
  "mcq_int_loop v c lmt cand rs = Some y \<Longrightarrow>
     (\<forall>cand' rs'. y = Inr (cand', rs') \<longrightarrow> finite cand \<longrightarrow> card cand \<le> 5 \<longrightarrow>
        finite cand' \<and> card cand' = 5 \<and> cand \<subseteq> cand' \<and> (\<forall>x\<in>cand' - cand. 0 < x))"
proof (induction rule: mcq_int_loop.raw_induct[rotated 1, consumes 1, case_names step])
  case (step loop v c lmt cand rs y)
  show ?case
  proof (intro allI impI)
    fix cand' rs'
    assume y: "y = Inr (cand', rs')" and fin: "finite cand" and le: "card cand \<le> 5"
    show "finite cand' \<and> card cand' = 5 \<and> cand \<subseteq> cand' \<and> (\<forall>x\<in>cand' - cand. 0 < x)"
    proof (cases "card cand < 5")
      case False
      with step(2) y le fin show ?thesis by auto
    next
      case True
      from step(2) True y have e: "(case random_randint 1 lmt rs of
           Inl e \<Rightarrow> Some (Inl e)
         | Inr (delta, rs1) \<Rightarrow>
             (case draw_val v c delta rs1 of
                Inl e \<Rightarrow> Some (Inl e)
              | Inr (val, rs2) \<Rightarrow>
                  loop v c lmt (if 0 < val then insert val cand else cand) rs2)) = Some (Inr (cand', rs'))"
        by simp
      then obtain delta rs1 where r1: "random_randint 1 lmt rs = Inr (delta, rs1)"
        by (cases "random_randint 1 lmt rs") auto
      with e obtain val rs2 where r2: "draw_val v c delta rs1 = Inr (val, rs2)"
        by (cases "draw_val v c delta rs1") auto
      from e r1 r2 have
        call: "loop v c lmt (if 0 < val then insert val cand else cand) rs2 = Some (Inr (cand', rs'))"
        by simp
      let ?n = "if 0 < val then insert val cand else cand"
      have fn: "finite ?n" using fin by simp
      have cn: "card ?n \<le> 5" using True fin by (simp add: card_insert_if)
      have r: "finite cand' \<and> card cand' = 5 \<and> ?n \<subseteq> cand' \<and> (\<forall>x\<in>cand' - ?n. 0 < x)"
        by (rule step(1)[OF call, rule_format, OF refl fn cn])
      show ?thesis
      proof (cases "0 < val")
        case True
        with r show ?thesis by auto
      next
        case False
        with r show ?thesis by simp
      qed
    qed
  qed
qed

lemma mcq_int_loop_result:
  assumes "mcq_int_loop v c lmt cand rs = Some (Inr (cand', rs'))" "finite cand" "card cand \<le> 5"
  shows "finite cand'" "card cand' = 5" "cand \<subseteq> cand'" "\<forall>x\<in>cand' - cand. 0 < x"
  using mcq_int_loop_result_aux[OF assms(1)] assms(2,3) by blast+

lemma mcq_small_loop_result_aux:
  "mcq_small_loop pool chosen rs = Some y \<Longrightarrow>
     (\<forall>chosen' rs'. y = Inr (chosen', rs') \<longrightarrow> finite chosen \<longrightarrow> card chosen \<le> 5 \<longrightarrow> finite pool \<longrightarrow>
        finite chosen' \<and> card chosen' = 5 \<and> chosen \<subseteq> chosen' \<and> chosen' \<subseteq> chosen \<union> pool)"
proof (induction rule: mcq_small_loop.raw_induct[rotated 1, consumes 1, case_names step])
  case (step loop pool chosen rs y)
  show ?case
  proof (intro allI impI)
    fix chosen' rs'
    assume y: "y = Inr (chosen', rs')" and fin: "finite chosen" and le: "card chosen \<le> 5"
      and fp: "finite pool"
    show "finite chosen' \<and> card chosen' = 5 \<and> chosen \<subseteq> chosen' \<and> chosen' \<subseteq> chosen \<union> pool"
    proof (cases "card chosen < 5")
      case False
      with step(2) y le fin show ?thesis by auto
    next
      case True
      from step(2) True y have e: "(case random_choice (list_of_set pool) rs of
           Inl e \<Rightarrow> Some (Inl e)
         | Inr (x, rs1) \<Rightarrow> loop pool (insert x chosen) rs1) = Some (Inr (chosen', rs'))"
        by simp
      then obtain x rs1 where ch: "random_choice (list_of_set pool) rs = Inr (x, rs1)"
        by (cases "random_choice (list_of_set pool) rs") auto
      with e have call: "loop pool (insert x chosen) rs1 = Some (Inr (chosen', rs'))"
        by simp
      have "x \<in> pool" using random_choice_mem[OF ch] fp by (simp add: list_of_set_def)
      have cn: "card (insert x chosen) \<le> 5" using True fin by (simp add: card_insert_if)
      have fn: "finite (insert x chosen)" using fin by simp
      have "finite chosen' \<and> card chosen' = 5 \<and> insert x chosen \<subseteq> chosen'
           \<and> chosen' \<subseteq> insert x chosen \<union> pool"
        by (rule step(1)[OF call, rule_format, OF refl fn cn fp])
      with \<open>x \<in> pool\<close> show ?thesis by auto
    qed
  qed
qed

lemma mcq_small_loop_result:
  assumes "mcq_small_loop pool chosen rs = Some (Inr (chosen', rs'))" "finite chosen" "card chosen \<le> 5" "finite pool"
  shows "finite chosen'" "card chosen' = 5" "chosen \<subseteq> chosen'" "chosen' \<subseteq> chosen \<union> pool"
  using mcq_small_loop_result_aux[OF assms(1)] assms(2,3,4) by blast+

lemma list_index_Some:
  "x \<in> set xs \<Longrightarrow> \<exists>k. list_index xs x = Some k \<and> k < length xs \<and> xs ! k = x"
  by (induction xs) auto

lemma list_index_SomeD:
  "list_index xs x = Some k \<Longrightarrow> k < length xs \<and> xs ! k = x"
  by (induction xs arbitrary: k) (auto split: if_splits)

lemma length_labels: "length labels = 5"
  by (simp add: labels_def)

lemma label_options_result:
  "label_options c xs = Inr (d, l) \<Longrightarrow>
     \<exists>k < 5. 5 \<le> length xs \<and> xs ! k = c \<and> l = labels ! k \<and>
            d = map (\<lambda>i. (labels ! i, i2s (xs ! i))) [0..<5]"
  unfolding label_options_def length_labels
  by (auto split: option.splits if_splits dest!: list_index_SomeD simp: not_le)

lemma labelled_eq_zip:
  "length xs = 5 \<Longrightarrow> map (\<lambda>i. (labels ! i, i2s (xs ! i))) [0..<5] = zip labels (map i2s xs)"
  by (rule nth_equalityI) (simp_all add: length_labels)

lemma list_of_set_props:
  "finite s \<Longrightarrow> set (list_of_set s) = s \<and> distinct (list_of_set s) \<and> length (list_of_set s) = card s"
  by (simp add: list_of_set_def)

lemma shuffle_label_assembled:
  assumes fin: "finite s" and card: "card s = 5"
    and sh: "random_shuffle (list_of_set s) rs1 = (xs, rs2)"
    and lab: "label_options c xs = Inr (os, l)"
  shows "assembled c xs os l \<and> set xs = s"
proof -
  have m: "mset xs = mset (list_of_set s)" by (rule random_shuffle_mset[OF sh])
  have "set xs = s" using mset_eq_setD[OF m] list_of_set_props[OF fin] by simp
  moreover have d: "distinct xs" using mset_eq_imp_distinct_iff[OF m] list_of_set_props[OF fin] by simp
  moreover have len: "length xs = 5" using mset_eq_length[OF m] list_of_set_props[OF fin] card by simp
  moreover from label_options_result[OF lab] len
  have "os = zip labels (map i2s xs) \<and> (\<exists>k<5. xs ! k = c \<and> l = labels ! k)"
    by (auto simp: labelled_eq_zip)
  ultimately show ?thesis by (simp add: assembled_def)
qed

lemma mcq_options_int_result:
  assumes "mcq_options_int v c rs = Some (Inr ((os, l), rs'))"
  shows "\<exists>xs. assembled c xs os l \<and> (\<forall>x\<in>set xs. x = c \<or> 0 < x)"
proof -
  from assms obtain cand rs1 where
    loop: "mcq_int_loop v c (mcq_limit v c) {c} rs = Some (Inr (cand, rs1))"
    unfolding mcq_options_int_def
    by (cases "mcq_int_loop v c (mcq_limit v c) {c} rs") (auto split: sum.splits)
  obtain xs rs2 where sh: "random_shuffle (list_of_set cand) rs1 = (xs, rs2)"
    by (cases "random_shuffle (list_of_set cand) rs1")
  from assms loop sh have lab: "label_options c xs = Inr (os, l)"
    unfolding mcq_options_int_def by (auto split: sum.splits)
  have f: "finite cand" and c5: "card cand = 5" and pos: "\<forall>x\<in>cand - {c}. 0 < x"
    using mcq_int_loop_result[OF loop] by simp_all
  from shuffle_label_assembled[OF f c5 sh lab] pos show ?thesis by blast
qed

lemma mcq_options_small_set_result:
  assumes "mcq_options_small_set c pool rs = Some (Inr ((os, l), rs'))"
  shows "\<exists>xs. assembled c xs os l \<and> set xs \<subseteq> insert c (set pool)"
proof -
  from assms obtain chosen rs1 where
    loop: "mcq_small_loop (insert c (set pool)) {c} rs = Some (Inr (chosen, rs1))"
    unfolding mcq_options_small_set_def
    by (cases "mcq_small_loop (insert c (set pool)) {c} rs") (auto split: sum.splits)
  obtain xs rs2 where sh: "random_shuffle (list_of_set chosen) rs1 = (xs, rs2)"
    by (cases "random_shuffle (list_of_set chosen) rs1")
  from assms loop sh have lab: "label_options c xs = Inr (os, l)"
    unfolding mcq_options_small_set_def by (auto split: sum.splits)
  have f: "finite chosen" and c5: "card chosen = 5" and sub: "chosen \<subseteq> {c} \<union> insert c (set pool)"
    using mcq_small_loop_result[OF loop] by simp_all
  from shuffle_label_assembled[OF f c5 sh lab] sub show ?thesis by blast
qed

lemma build_question_result:
  assumes "build_question v d (t, c, b) rs = Some (Inr (g, rs'))"
  shows "qtext g = t \<and> figure g = d \<and> correct g = c \<and>
         (\<exists>xs. assembled c xs (opts g) (correct_letter g) \<and>
            (case b of Options_int \<Rightarrow> \<forall>x\<in>set xs. x = c \<or> 0 < x
                     | Options_small pool \<Rightarrow> set xs \<subseteq> insert c (set pool)))"
proof (cases b)
  case Options_int
  with assms obtain os l where
    m: "mcq_options_int v c rs = Some (Inr ((os, l), rs'))" and
    g: "g = \<lparr>qtext = t, opts = os, correct_letter = l, figure = d, correct = c\<rparr>"
    unfolding build_question_def
    by (cases "mcq_options_int v c rs") (auto split: sum.splits)
  from mcq_options_int_result[OF m] g Options_int show ?thesis by auto
next
  case (Options_small pool)
  with assms obtain os l where
    m: "mcq_options_small_set c pool rs = Some (Inr ((os, l), rs'))" and
    g: "g = \<lparr>qtext = t, opts = os, correct_letter = l, figure = d, correct = c\<rparr>"
    unfolding build_question_def
    by (cases "mcq_options_small_set c pool rs") (auto split: sum.splits)
  from mcq_options_small_set_result[OF m] g Options_small show ?thesis by auto
qed

lemma distinct_labels: "distinct labels"
  by (simp add: labels_def)

lemma assembled_lookup:
  assumes "assembled c xs os l"
  shows "map_of os l = Some (i2s c)"
proof -
  from assms obtain k where k: "k < 5" "xs ! k = c" "l = labels ! k"
    and len: "length xs = 5" and os: "os = zip labels (map i2s xs)"
    by (auto simp: assembled_def)
  have "map_of (zip labels (map i2s xs)) (labels ! k) = Some (map i2s xs ! k)"
    by (rule map_of_zip_nth) (simp_all add: len length_labels distinct_labels k)
  with k len os show ?thesis by simp
qed

lemma assembled_values:
  assumes "assembled c xs os l"
  shows "map snd os = map i2s xs" "map fst os = labels" "length os = 5"
    "distinct (map snd os)" "l \<in> set labels"
proof -
  from assms have len: "length xs = 5" and os: "os = zip labels (map i2s xs)" and d: "distinct xs"
    by (auto simp: assembled_def)
  show v: "map snd os = map i2s xs" using len os by (simp add: length_labels)
  show "map fst os = labels" using len os by (simp add: length_labels)
  show "length os = 5" using len os by (simp add: length_labels)
  show "distinct (map snd os)" unfolding v using d
    by (simp add: distinct_map inj_on_def i2s_inj)
  from assms show "l \<in> set labels" by (auto simp: assembled_def length_labels)
qed

lemma distinct_filter_eq_one:
  "distinct xs \<Longrightarrow> c \<in> set xs \<Longrightarrow> length (filter (\<lambda>x. x = c) xs) = 1"
proof (induction xs)
  case Nil
  then show ?case by simp
next
  case (Cons a xs)
  show ?case
  proof (cases "a = c")
    case True
    with Cons.prems have "c \<notin> set xs" by simp
    then have "filter (\<lambda>x. x = c) xs = []" by (auto simp: filter_empty_conv)
    with True show ?thesis by simp
  next
    case False
    with Cons show ?thesis by simp
  qed
qed

lemma assembled_once:
  assumes "assembled c xs os l"
  shows "length (filter (\<lambda>p. snd p = i2s c) os) = 1"
proof -
  from assms have len: "length xs = 5" and d: "distinct xs" and "\<exists>k<5. xs ! k = c"
    by (auto simp: assembled_def)
  then have cin: "c \<in> set xs" by (metis nth_mem)
  have e: "(\<lambda>x. i2s x = i2s c) = (\<lambda>x. x = c)"
    by (auto simp: fun_eq_iff dest: i2s_inj)
  have "length (filter (\<lambda>p. snd p = i2s c) os) = length (filter (\<lambda>s. s = i2s c) (map snd os))"
    by (simp add: filter_map comp_def)
  also have "\<dots> = length (filter (\<lambda>s. s = i2s c) (map i2s xs))"
    using assembled_values(1)[OF assms] by simp
  also have "\<dots> = length (filter (\<lambda>x. x = c) xs)"
    by (simp add: filter_map comp_def e)
  also have "\<dots> = 1" using d cin by (rule distinct_filter_eq_one)
  finally show ?thesis .
qed

subsection \<open>Rounding and the question chains\<close>

lemma py_round_of_int [simp]: "py_round (of_int n) = n"
  by (simp add: py_round_def Let_def)

lemma clamp_int_of_int [simp]: "clamp_int (of_int n) = n"
  by (simp add: clamp_int_def)

lemma py_round_fifth: "py_round (of_int n * 0.2) = (n + 2) div 5"
proof -
  have "\<lfloor>real_of_int n * 0.2\<rfloor> = \<lfloor>real_of_int n / real_of_int 5\<rfloor>" by simp
  also have "\<dots> = n div 5" by (rule floor_divide_of_int_eq)
  finally have fl: "\<lfloor>real_of_int n * 0.2\<rfloor> = n div 5" .
  define q r where "q = real_of_int (n div 5)" and "r = real_of_int (n mod 5)"
  have "real_of_int (5 * (n div 5) + n mod 5) = 5 * q + r"
    unfolding q_def r_def by (simp only: of_int_add of_int_mult of_int_numeral)
  moreover have "5 * (n div 5) + n mod 5 = n" by simp
  ultimately have nm: "real_of_int n = 5 * q + r" by simp
  have "real_of_int n * 0.2 - q = r / 5" unfolding nm by (simp add: field_simps)
  then have d: "real_of_int n * 0.2 - of_int (n div 5) = real_of_int (n mod 5) / 5"
    unfolding q_def r_def .
  consider "n mod 5 \<le> 2" | "3 \<le> n mod 5" by linarith
  then show ?thesis
  proof cases
    case 1
    then have "real_of_int (n mod 5) / 5 < 1 / 2" by simp
    moreover have "(n + 2) div 5 = n div 5" using 1 by presburger
    ultimately show ?thesis unfolding py_round_def Let_def fl d by simp
  next
    case 2
    then have "1 / 2 < real_of_int (n mod 5) / 5" by simp
    moreover have "(n + 2) div 5 = n div 5 + 1" using 2 by presburger
    ultimately show ?thesis unfolding py_round_def Let_def fl d by simp
  qed
qed

lemma py_int_of_int [simp]: "py_int (of_int n) = n"
  by (simp add: py_int_def)

lemma py_int_fifth: "0 \<le> n \<Longrightarrow> py_int (of_int n * 0.2) = n div 5"
proof -
  assume "0 \<le> n"
  have "\<lfloor>real_of_int n * 0.2\<rfloor> = \<lfloor>real_of_int n / real_of_int 5\<rfloor>" by simp
  also have "\<dots> = n div 5" by (rule floor_divide_of_int_eq)
  finally show ?thesis using \<open>0 \<le> n\<close> by (simp add: py_int_def)
qed

lemma mcq_limit_eq:
  "mcq_limit RandomShapeGenerator c = max 8 (max 6 ((\<bar>c\<bar> + 2) div 5))"
  "mcq_limit Untitled1 c = max 6 (\<bar>c\<bar> div 5)"
  unfolding mcq_limit_def
  by (simp_all only: variant.case py_round_fifth py_int_of_int py_int_fifth[OF abs_ge_zero])

lemma mcq_limit_ge: "6 \<le> mcq_limit v c"
  by (cases v) (simp_all add: mcq_limit_eq)

lemma texts_distinct:
  "area_q \<noteq> perimeter_q" "area_q \<noteq> circumference_q" "area_q \<noteq> symmetry_q"
  "perimeter_q \<noteq> circumference_q" "perimeter_q \<noteq> symmetry_q" "circumference_q \<noteq> symmetry_q"
  by (simp_all add: area_q_def perimeter_q_def circumference_q_def symmetry_q_def)

lemma given_not_fixed:
  "given_area v a w \<notin> fixed_texts" "given_perimeter p w \<notin> fixed_texts"
  "given_circumference c \<notin> fixed_texts"
  by (simp_all add: fixed_texts_def given_area_def given_perimeter_def given_circumference_def
      area_q_def perimeter_q_def circumference_q_def symmetry_q_def)

lemma nat_digits_is_digit: "x \<in> set (nat_digits n) \<Longrightarrow> is_digit x"
  using nat_digits_chars[of n] unfolding is_digit_def by blast

lemma minus_not_digit: "\<not> is_digit CHR ''-''"
  by (simp add: is_digit_def)

lemma stated_quantity_i2s:
  assumes p: "\<And>x. x \<in> set p \<Longrightarrow> \<not> is_digit x \<and> x \<noteq> CHR ''-''" and c: "\<not> is_digit c"
  shows "stated_quantity (p @ i2s n @ c # r) = Some n"
proof -
  let ?skip = "\<lambda>c. \<not> is_digit c \<and> c \<noteq> CHR ''-''"
  have dw: "dropWhile ?skip (p @ ys) = dropWhile ?skip ys" for ys
    by (rule dropWhile_append2) (use p in blast)
  have tw: "takeWhile is_digit (nat_digits m @ c # r) = nat_digits m" for m
  proof -
    have "takeWhile is_digit (nat_digits m @ c # r) = nat_digits m @ takeWhile is_digit (c # r)"
      by (rule takeWhile_append2) (rule nat_digits_is_digit)
    with c show ?thesis by simp
  qed
  show ?thesis
  proof (cases "n < 0")
    case True
    define m where "m = nat (- n)"
    from True have i: "i2s n = CHR ''-'' # nat_digits m" by (simp add: i2s_def m_def)
    obtain d ds where ds: "nat_digits m = d # ds"
      using nat_digits_not_Nil[of m] by (cases "nat_digits m") auto
    have "stated_quantity (p @ i2s n @ c # r) =
        (case takeWhile is_digit (nat_digits m @ c # r) of [] \<Rightarrow> None
         | ds \<Rightarrow> Some (- int (digits_val ds)))"
      unfolding stated_quantity_def dw i by simp
    also have "\<dots> = Some (- int (digits_val (nat_digits m)))"
      unfolding tw by (simp add: ds)
    also have "\<dots> = Some n" using True by (simp add: digits_val_nat_digits m_def)
    finally show ?thesis .
  next
    case False
    define m where "m = nat n"
    from False have i: "i2s n = nat_digits m" by (simp add: i2s_def m_def)
    obtain d ds where ds: "nat_digits m = d # ds"
      using nat_digits_not_Nil[of m] by (cases "nat_digits m") auto
    have d: "is_digit d" by (rule nat_digits_is_digit[of d m]) (simp add: ds)
    then have dm: "d \<noteq> CHR ''-''" using minus_not_digit by auto
    have "dropWhile ?skip (p @ i2s n @ c # r) = d # ds @ c # r"
      unfolding dw i ds using d by simp
    then have "stated_quantity (p @ i2s n @ c # r) =
        Some (int (digits_val (takeWhile is_digit (d # ds @ c # r))))"
      unfolding stated_quantity_def using dm by simp
    also have "takeWhile is_digit (d # ds @ c # r) = nat_digits m"
      using tw[of m] by (simp add: ds)
    also have "Some (int (digits_val (nat_digits m))) = Some n"
      using False by (simp add: digits_val_nat_digits m_def)
    finally show ?thesis .
  qed
qed

lemma stated_quantity_text:
  assumes "s = p @ i2s n @ c # r" and "\<forall>x\<in>set p. \<not> is_digit x \<and> x \<noteq> CHR ''-''" and "\<not> is_digit c"
  shows "stated_quantity s = Some n"
  unfolding assms(1) by (rule stated_quantity_i2s) (use assms(2,3) in blast)+

lemma stated_given_area: "stated_quantity (given_area v a w) = Some a"
proof -
  obtain r where "given_area v a w = ''The area is '' @ i2s a @ CHR '' '' # r"
    by (cases v) (simp_all add: given_area_def sq_unit_def)
  then show ?thesis
    by (rule stated_quantity_text) (auto simp: is_digit_def)
qed

lemma stated_given_perimeter: "stated_quantity (given_perimeter a w) = Some a"
proof -
  obtain r where "given_perimeter a w = ''The perimeter is '' @ i2s a @ CHR '' '' # r"
    by (simp add: given_perimeter_def)
  then show ?thesis
    by (rule stated_quantity_text) (auto simp: is_digit_def)
qed

lemma stated_given_circumference: "stated_quantity (given_circumference a) = Some a"
proof -
  obtain r where "given_circumference a = ''The circumference is '' @ i2s a @ CHR '' '' # r"
    by (simp add: given_circumference_def)
  then show ?thesis
    by (rule stated_quantity_text) (auto simp: is_digit_def)
qed

lemma starts_given:
  "starts_with ''The area is '' (given_area v a w)"
  "starts_with ''The perimeter is '' (given_perimeter a w)"
  "starts_with ''The circumference is '' (given_circumference a)"
  by (simp_all add: starts_with_def given_area_def given_perimeter_def given_circumference_def)

lemmas given_stated = given_not_fixed stated_given_area stated_given_perimeter
  stated_given_circumference starts_given

lemma py_round_mult_int: "py_round (of_int a * of_int b) = a * b"
  using py_round_of_int[of "a * b"] by simp

lemma py_round_add3_int: "py_round (of_int a + of_int b + of_int c) = a + b + c"
  using py_round_of_int[of "a + b + c"] by simp

lemma py_round_nat_int: "py_round (of_nat n * of_int b) = int n * b"
  using py_round_of_int[of "int n * b"] by simp

lemma py_round_num_int: "py_round (numeral k * of_int b) = numeral k * b"
  using py_round_of_int[of "numeral k * b"] by simp

lemma py_round_sum2: "py_round (2 * of_int a + 2 * of_int b) = 2 * a + 2 * b"
  using py_round_of_int[of "2 * a + 2 * b"] by simp

lemma square_classified: "classified v (Square_dims s) (square_question v s qt)"
  by (simp add: classified_def given_stated square_question_def clamp_int_def py_round_mult_int py_round_num_int)

lemma rectangle_classified: "classified v (Rectangle_dims w h) (rectangle_question v w h qt)"
  by (simp add: classified_def given_stated rectangle_question_def clamp_int_def py_round_mult_int py_round_sum2)

lemma equilateral_classified: "classified v (Equilateral_dims s) (equilateral_triangle_question v s qt)"
  by (simp add: classified_def given_stated equilateral_triangle_question_def clamp_int_def py_round_num_int
      power2_eq_square mult.assoc)

lemma isosceles_classified: "classified v (Isosceles_dims b h) (isosceles_triangle_question v b h qt)"
  by (simp add: classified_def given_stated isosceles_triangle_question_def clamp_int_def hypot_def
      power2_eq_square add.commute)

lemma scalene_classified: "classified v (Scalene_dims a b c) (scalene_triangle_question v a b c qt)"
  by (simp add: classified_def given_stated scalene_triangle_question_def clamp_int_def Let_def py_round_add3_int)

lemma trapezium_classified: "classified v (Trapezium_dims t b h) (trapezium_question v t b h qt)"
  by (simp add: classified_def given_stated trapezium_question_def clamp_int_def hypot_def power2_eq_square)

lemma parallelogram_classified:
  "classified v (Parallelogram_dims b h sl) (parallelogram_question v b h sl qt)"
  by (simp add: classified_def given_stated parallelogram_question_def clamp_int_def hypot_def
      power2_eq_square py_round_mult_int)

lemma circle_classified: "classified v (Circle_dims r) (circle_question v r qt)"
  by (simp add: classified_def given_stated circle_question_def clamp_int_def power2_eq_square mult.assoc)

lemma ngon_pool_nonneg: "\<forall>x\<in>set (ngon_pool v n). 0 \<le> x"
  by (cases v) (auto simp: ngon_pool_def)

lemma ngon_classified: "classified v (Ngon_dims n s) (regular_ngon_question v n s qt)"
  by (simp add: classified_def given_stated regular_ngon_question_def clamp_int_def power2_eq_square
      py_round_nat_int ngon_pool_nonneg mult.assoc)

lemma question_of_classified: "d \<noteq> No_dims \<Longrightarrow> classified v d (question_of v d qt)"
  by (cases d) (simp_all add: square_classified rectangle_classified equilateral_classified
      isosceles_classified scalene_classified trapezium_classified parallelogram_classified
      circle_classified ngon_classified)

subsection \<open>The shape generators\<close>

lemma sample_sides_range:
  "sample_sides rng rs = Inr ((a, b, c), rs') \<Longrightarrow>
     fst rng \<le> a \<and> a \<le> snd rng \<and> fst rng \<le> b \<and> b \<le> snd rng \<and> fst rng \<le> c \<and> c \<le> snd rng"
  unfolding sample_sides_def
  by (auto split: sum.splits dest!: random_randint_range)

lemma scalene_resample_range:
  "scalene_resample rng t n rs = Inr (t', rs') \<Longrightarrow> dims_in_tier rng (case t of (a, b, c) \<Rightarrow> Scalene_dims a b c)
    \<Longrightarrow> dims_in_tier rng (case t' of (a, b, c) \<Rightarrow> Scalene_dims a b c)"
proof (induction rng t n rs rule: scalene_resample.induct)
  case (1 rng t attempts rs)
  obtain a b c where t: "t = (a, b, c)" by (cases t)
  show ?case
  proof (cases "\<not> valid a b c \<and> attempts < 100")
    case False
    with 1(2,3) t show ?thesis by (subst (asm) scalene_resample.simps) auto
  next
    case True
    from 1(2) True t obtain t1 rs1 where s: "sample_sides rng rs = Inr (t1, rs1)"
      and r: "scalene_resample rng t1 (attempts + 1) rs1 = Inr (t', rs')"
      by (subst (asm) scalene_resample.simps) (auto split: sum.splits)
    obtain a1 b1 c1 where t1: "t1 = (a1, b1, c1)" by (cases t1)
    have d1: "dims_in_tier rng (case t1 of (a, b, c) \<Rightarrow> Scalene_dims a b c)"
      using sample_sides_range[OF s[unfolded t1]] t1 by (cases rng) simp
    show ?thesis by (rule 1(1)[OF t[symmetric] refl True s refl r d1])
  qed
qed

lemma scalene_tries_range:
  "scalene_tries rng t n rs = Inr (t', rs') \<Longrightarrow> n < 100
    \<Longrightarrow> dims_in_tier rng (case t' of (a, b, c) \<Rightarrow> Scalene_dims a b c)"
proof (induction rng t n rs rule: scalene_tries.induct)
  case (1 rng t tries rs)
  from 1(2,3) obtain a b c rs1 where s: "sample_sides rng rs = Inr ((a, b, c), rs1)"
    and r: "(if valid a b c \<and> card {a, b, c} = 3 then Inr ((a, b, c), rs1)
             else scalene_tries rng (a, b, c) (tries + 1) rs1) = Inr (t', rs')"
    by (subst (asm) scalene_tries.simps) (auto split: sum.splits)
  have range: "dims_in_tier rng (Scalene_dims a b c)"
    using sample_sides_range[OF s] by (cases rng) simp
  show ?case
  proof (cases "valid a b c \<and> card {a, b, c} = 3")
    case True
    with r range show ?thesis by auto
  next
    case False
    with r have r': "scalene_tries rng (a, b, c) (tries + 1) rs1 = Inr (t', rs')" by simp
    show ?thesis
    proof (cases "tries + 1 < 100")
      case True
      from 1(1)[OF 1(3) s refl refl refl False r' True] show ?thesis .
    next
      case False
      with r' range show ?thesis by (subst (asm) scalene_tries.simps) auto
    qed
  qed
qed

lemma sample_scalene_range:
  assumes "sample_scalene v rng rs = Inr ((a, b, c), rs')"
  shows "dims_in_tier rng (Scalene_dims a b c)"
proof (cases v)
  case RandomShapeGenerator
  with assms obtain t rs1 where s: "sample_sides rng rs = Inr (t, rs1)"
    and r: "scalene_resample rng t 0 rs1 = Inr ((a, b, c), rs')"
    by (auto simp: sample_scalene_def split: sum.splits)
  obtain a1 b1 c1 where t: "t = (a1, b1, c1)" by (cases t)
  have "dims_in_tier rng (case t of (a, b, c) \<Rightarrow> Scalene_dims a b c)"
    using sample_sides_range[OF s[unfolded t]] t by (cases rng) simp
  from scalene_resample_range[OF r this] show ?thesis by simp
next
  case Untitled1
  with assms have "scalene_tries rng (0, 0, 0) 0 rs = Inr ((a, b, c), rs')"
    by (simp add: sample_scalene_def)
  from scalene_tries_range[OF this] show ?thesis by simp
qed

lemma sample_bottom_range:
  "sample_bottom v rng t rs = Inr (b, rs') \<Longrightarrow> t + 2 \<le> b \<and> b \<le> max (t + 2) (snd rng)"
  by (cases v) (auto simp: sample_bottom_def split: sum.splits dest!: random_randint_range)

lemma gen_square_built:
  "gen_square v rng qt rs = Some (Inr (g, rs')) \<Longrightarrow> \<exists>s. built v rng qt g rs' (Square_dims s)"
  unfolding gen_square_def built_def
  by (cases rng) (auto split: sum.splits dest!: random_randint_range)

lemma builtI:
  "dims_in_tier rng d \<Longrightarrow> build_question v d (question_of v d qt) rs1 = Some (Inr (g, rs'))
     \<Longrightarrow> built v rng qt g rs' d"
  by (auto simp: built_def)

lemma gen_rectangle_built:
  assumes "gen_rectangle v rng qt rs = Some (Inr (g, rs'))"
  shows "\<exists>w h. built v rng qt g rs' (Rectangle_dims w h)"
proof -
  obtain lo hi where rng: "rng = (lo, hi)" by (cases rng)
  from assms obtain w0 rs1 where r1: "random_randint lo hi rs = Inr (w0, rs1)"
    unfolding gen_rectangle_def rng by (auto split: sum.splits)
  with assms obtain h rs2 where r2: "random_randint lo hi rs1 = Inr (h, rs2)"
    unfolding gen_rectangle_def rng by (auto split: sum.splits)
  define w where "w = (if w0 = h then w0 + 1 else w0)"
  from assms r1 r2 have b: "build_question v (Rectangle_dims w h) (question_of v (Rectangle_dims w h) qt) rs2
      = Some (Inr (g, rs'))"
    unfolding gen_rectangle_def rng w_def by (simp add: Let_def)
  have "dims_in_tier rng (Rectangle_dims w h)"
    using random_randint_range[OF r1] random_randint_range[OF r2] unfolding rng w_def by auto
  from builtI[OF this b] show ?thesis by blast
qed

lemma gen_equilateral_built:
  "gen_equilateral_triangle v rng qt rs = Some (Inr (g, rs')) \<Longrightarrow> \<exists>s. built v rng qt g rs' (Equilateral_dims s)"
  unfolding gen_equilateral_triangle_def built_def
  by (cases rng) (auto split: sum.splits dest!: random_randint_range)

lemma gen_isosceles_built:
  "gen_isosceles_triangle v rng qt rs = Some (Inr (g, rs')) \<Longrightarrow> \<exists>b h. built v rng qt g rs' (Isosceles_dims b h)"
  unfolding gen_isosceles_triangle_def built_def
  by (cases rng) (fastforce split: sum.splits dest!: random_randint_range)

lemma gen_scalene_built:
  "gen_scalene_triangle v rng qt rs = Some (Inr (g, rs')) \<Longrightarrow> \<exists>a b c. built v rng qt g rs' (Scalene_dims a b c)"
  unfolding gen_scalene_triangle_def built_def
  by (fastforce split: sum.splits if_splits dest!: sample_scalene_range)

lemma gen_trapezium_built:
  "gen_trapezium v rng qt rs = Some (Inr (g, rs')) \<Longrightarrow> \<exists>t b h. built v rng qt g rs' (Trapezium_dims t b h)"
  unfolding gen_trapezium_def built_def
  by (cases rng) (fastforce split: sum.splits dest!: random_randint_range sample_bottom_range)

lemma gen_parallelogram_built:
  "gen_parallelogram v rng qt rs = Some (Inr (g, rs')) \<Longrightarrow> \<exists>b h sl. built v rng qt g rs' (Parallelogram_dims b h sl)"
  unfolding gen_parallelogram_def built_def
  by (cases rng) (fastforce split: sum.splits dest!: random_randint_range)

lemma gen_circle_built:
  "gen_circle v rng qt rs = Some (Inr (g, rs')) \<Longrightarrow> \<exists>r. built v rng qt g rs' (Circle_dims r)"
  unfolding gen_circle_def built_def
  by (cases rng) (fastforce split: sum.splits dest!: random_randint_range)

lemma gen_ngon_built:
  "gen_regular_ngon v rng qt n rs = Some (Inr (g, rs')) \<Longrightarrow> \<exists>s. built v rng qt g rs' (Ngon_dims n s)"
  unfolding gen_regular_ngon_def built_def
  by (cases rng) (fastforce split: sum.splits if_splits dest!: random_randint_range)

lemma random_choice_rest: "random_choice xs rs = Inr (x, rs1) \<Longrightarrow> rs1 = rest rs"
  by (auto simp: random_choice_def randbelow_def split: if_splits)

lemma gen_one_built:
  assumes "gen_one v shape diff rs = Some (Inr (g, rs'))"
  shows "\<exists>rng qt d. map_of DIFF_RANGES diff = Some rng \<and> built v rng qt g rs' d \<and>
           (shape \<in> set SHAPES \<longrightarrow> d \<noteq> No_dims) \<and>
           (shape = ''circle'' \<longrightarrow> (\<exists>r. d = Circle_dims r) \<and> qt \<in> {''area'', ''perimeter'', ''missing''}
              \<and> gen_circle v rng qt (rest rs) = Some (Inr (g, rs')))"
proof -
  from assms obtain rng where rng: "map_of DIFF_RANGES diff = Some rng"
    unfolding gen_one_def by (auto split: option.splits)
  let ?types = "if shape \<noteq> ''circle'' then Q_TYPES else [''area'', ''perimeter'', ''missing'']"
  from assms rng obtain qt rs1 where ch: "random_choice ?types rs = Inr (qt, rs1)"
    unfolding gen_one_def by (auto split: sum.splits)
  have rs1: "rs1 = rest rs" by (rule random_choice_rest[OF ch])
  have qt: "qt \<in> set ?types" by (rule random_choice_mem[OF ch])
  note g = assms[unfolded gen_one_def rng option.case ch sum.case prod.case]
  consider
      (sq) "shape = ''square''" | (re) "shape = ''rectangle''" | (eq) "shape = ''equilateral_triangle''"
    | (iso) "shape = ''isosceles_triangle''" | (sc) "shape = ''scalene_triangle''"
    | (tr) "shape = ''trapezium''" | (pa) "shape = ''parallelogram''" | (ci) "shape = ''circle''"
    | (he) "shape = ''regular_hexagon''" | (pe) "shape = ''regular_pentagon''"
    | (other) "shape \<notin> set SHAPES"
    by (auto simp: SHAPES_def)
  then show ?thesis
  proof cases
    case sq
    with g have "gen_square v rng qt rs1 = Some (Inr (g, rs'))" by simp
    from gen_square_built[OF this] rng sq show ?thesis by auto
  next
    case re
    with g have "gen_rectangle v rng qt rs1 = Some (Inr (g, rs'))" by simp
    from gen_rectangle_built[OF this] rng re show ?thesis by auto
  next
    case eq
    with g have "gen_equilateral_triangle v rng qt rs1 = Some (Inr (g, rs'))" by simp
    from gen_equilateral_built[OF this] rng eq show ?thesis by auto
  next
    case iso
    with g have "gen_isosceles_triangle v rng qt rs1 = Some (Inr (g, rs'))" by simp
    from gen_isosceles_built[OF this] rng iso show ?thesis by auto
  next
    case sc
    with g have "gen_scalene_triangle v rng qt rs1 = Some (Inr (g, rs'))" by simp
    from gen_scalene_built[OF this] rng sc show ?thesis by auto
  next
    case tr
    with g have "gen_trapezium v rng qt rs1 = Some (Inr (g, rs'))" by simp
    from gen_trapezium_built[OF this] rng tr show ?thesis by auto
  next
    case pa
    with g have "gen_parallelogram v rng qt rs1 = Some (Inr (g, rs'))" by simp
    from gen_parallelogram_built[OF this] rng pa show ?thesis by auto
  next
    case ci
    with g have c: "gen_circle v rng qt rs1 = Some (Inr (g, rs'))" by simp
    from qt ci have "qt \<in> {''area'', ''perimeter'', ''missing''}" by simp
    with gen_circle_built[OF c] c rng ci rs1 show ?thesis by auto
  next
    case he
    with g have "gen_regular_ngon v rng qt 6 rs1 = Some (Inr (g, rs'))" by simp
    from gen_ngon_built[OF this] rng he show ?thesis by auto
  next
    case pe
    with g have "gen_regular_ngon v rng qt 5 rs1 = Some (Inr (g, rs'))" by simp
    from gen_ngon_built[OF this] rng pe show ?thesis by auto
  next
    case other
    then have ne: "shape \<noteq> ''square''" "shape \<noteq> ''rectangle''" "shape \<noteq> ''equilateral_triangle''"
      "shape \<noteq> ''isosceles_triangle''" "shape \<noteq> ''scalene_triangle''" "shape \<noteq> ''trapezium''"
      "shape \<noteq> ''parallelogram''" "shape \<noteq> ''circle''" "shape \<noteq> ''regular_hexagon''"
      "shape \<noteq> ''regular_pentagon''"
      by (auto simp: SHAPES_def)
    show ?thesis
    proof (cases v)
      case RandomShapeGenerator
      with g ne have "build_question v No_dims (question_of v No_dims qt) rs1 = Some (Inr (g, rs'))"
        by simp
      then have "built v rng qt g rs' No_dims" by (cases rng) (auto simp: built_def)
      with rng other ne show ?thesis by auto
    next
      case Untitled1
      with g ne have "gen_square v rng ''area'' rs1 = Some (Inr (g, rs'))" by simp
      from gen_square_built[OF this] rng other ne show ?thesis by auto
    qed
  qed
qed

subsection \<open>Concrete runs and the structure of a generated question\<close>

lemma shuffle_loop_numeral:
  "shuffle_loop (numeral k) x rs =
     (case randbelow (numeral k + 1) rs of
        (j, rs1) \<Rightarrow> shuffle_loop (pred_numeral k) (x[numeral k := x ! j, j := x ! numeral k]) rs1)"
  by (simp add: numeral_eq_Suc)

lemma randbelow_draws_Nil [simp]: "randbelow n (draws []) = (0, draws [])"
  by (simp add: randbelow_def)

lemma random_choice_numeral:
  "random_choice [a, b] rs = (case randbelow 2 rs of (k, rs1) \<Rightarrow> Inr ([a, b] ! k, rs1))"
  "random_choice [a, b, c] rs = (case randbelow 3 rs of (k, rs1) \<Rightarrow> Inr ([a, b, c] ! k, rs1))"
  "random_choice [a, b, c, d] rs = (case randbelow 4 rs of (k, rs1) \<Rightarrow> Inr ([a, b, c, d] ! k, rs1))"
  "random_choice [a, b, c, d, e] rs = (case randbelow 5 rs of (k, rs1) \<Rightarrow> Inr ([a, b, c, d, e] ! k, rs1))"
  "random_choice [a, b, c, d, e, f] rs =
     (case randbelow 6 rs of (k, rs1) \<Rightarrow> Inr ([a, b, c, d, e, f] ! k, rs1))"
  "random_choice [a, b, c, d, e, f, g, h, i, j] rs =
     (case randbelow 10 rs of (k, rs1) \<Rightarrow> Inr ([a, b, c, d, e, f, g, h, i, j] ! k, rs1))"
  by (simp_all add: random_choice_def eval_nat_numeral)

lemma square_loop:
  "mcq_int_loop RandomShapeGenerator 25 8 {25} (draws [0, 3, 9, 3, 2, 0, 3, 0]) =
     Some (Inr ({25, 26, 27, 22, 21}, draws []))"
  by (simp add: mcq_int_loop.simps random_randint_def random_choice_numeral draw_val_def insert_commute
      cong: sum.case_cong_weak prod.case_cong_weak if_weak_cong)

lemma square_list: "list_of_set {25, 26, 27, 22, 21} = [21, 22, 25, 26, 27]"
  by (simp add: list_of_set_def)

lemma square_shuffle:
  "random_shuffle [21, 22, 25, 26, 27 :: int] (draws []) = ([22, 25, 26, 27, 21], draws [])"
  by (simp add: random_shuffle_def shuffle_loop_numeral)

lemma square_labels:
  "label_options 25 [22, 25, 26, 27, 21] =
     Inr ([(''A'', ''22''), (''B'', ''25''), (''C'', ''26''), (''D'', ''27''), (''E'', ''21'')], ''B'')"
  by (simp add: label_options_def labels_def i2s_def nat_digits.simps digit_char_def upt_rec)

lemma square_run_options:
  "mcq_options_int RandomShapeGenerator 25 (draws [0, 3, 9, 3, 2, 0, 3, 0]) =
     Some (Inr (([(''A'', ''22''), (''B'', ''25''), (''C'', ''26''), (''D'', ''27''), (''E'', ''21'')], ''B''), draws []))"
  by (simp add: mcq_options_int_def mcq_limit_eq square_loop square_list square_shuffle square_labels)

lemma square_run:
  "gen_one RandomShapeGenerator ''square'' ''easy'' (draws [0, 4, 0, 3, 9, 3, 2, 0, 3, 0]) =
     Some (Inr (\<lparr>qtext = area_q,
                 opts = [(''A'', ''22''), (''B'', ''25''), (''C'', ''26''), (''D'', ''27''), (''E'', ''21'')],
                 correct_letter = ''B'', figure = Square_dims 5, correct = 25\<rparr>, draws []))"
  by (simp add: gen_one_def DIFF_RANGES_def Q_TYPES_def gen_square_def square_question_def
      build_question_def square_run_options random_randint_def random_choice_numeral)

lemma py_round_numeral [simp]: "py_round (numeral k) = numeral k"
  using py_round_of_int[of "numeral k"] by simp

lemma gen_one_question:
  assumes "gen_one v shape diff rs = Some (Inr (g, rs'))"
  obtains rng qt d rs1 t c b xs where
    "map_of DIFF_RANGES diff = Some rng" "dims_in_tier rng d"
    "question_of v d qt = (t, c, b)" "d = No_dims \<or> classified v d (t, c, b)"
    "qtext g = t" "figure g = d" "correct g = c"
    "assembled c xs (opts g) (correct_letter g)"
    "case b of Options_int \<Rightarrow> \<forall>x\<in>set xs. x = c \<or> 0 < x
             | Options_small pool \<Rightarrow> set xs \<subseteq> insert c (set pool)"
proof -
  from gen_one_built[OF assms] obtain rng qt d where
    rng: "map_of DIFF_RANGES diff = Some rng" and bt: "built v rng qt g rs' d"
    by blast
  from bt obtain rs1 where tier: "dims_in_tier rng d" and
    b: "build_question v d (question_of v d qt) rs1 = Some (Inr (g, rs'))"
    unfolding built_def by blast
  obtain t c bl where q: "question_of v d qt = (t, c, bl)" by (cases "question_of v d qt")
  have cl: "d = No_dims \<or> classified v d (t, c, bl)"
    using question_of_classified[of d v qt] q by auto
  from build_question_result[OF b[unfolded q]] obtain xs where
    "qtext g = t" "figure g = d" "correct g = c" "assembled c xs (opts g) (correct_letter g)"
    "case bl of Options_int \<Rightarrow> \<forall>x\<in>set xs. x = c \<or> 0 < x
               | Options_small pool \<Rightarrow> set xs \<subseteq> insert c (set pool)"
    by auto
  with rng tier q cl that show ?thesis by blast
qed

lemma rectangle_pool_set: "insert 2 (set [0, 1, 2, 3, 4 :: int]) = {0, 1, 2, 3, 4}"
  by auto

lemma rectangle_pool: "list_of_set (insert 2 (set [0, 1, 2, 3, 4])) = [0, 1, 2, 3, 4]"
  unfolding rectangle_pool_set list_of_set_def by simp

lemma rectangle_list: "list_of_set {0, 1, 2, 3, 4} = [0, 1, 2, 3, 4]"
  by (simp add: list_of_set_def)

lemma rectangle_loop_aux:
  assumes "list_of_set P = [0, 1, 2, 3, 4]"
  shows "mcq_small_loop P {2} (draws [0, 6, 3, 4]) = Some (Inr ({0, 1, 2, 3, 4}, draws []))"
  by (simp add: mcq_small_loop.simps assms random_choice_numeral insert_commute
      cong: sum.case_cong_weak prod.case_cong_weak if_weak_cong)

lemma rectangle_loop:
  "mcq_small_loop (insert 2 (set [0, 1, 2, 3, 4])) {2} (draws [0, 6, 3, 4]) =
     Some (Inr ({0, 1, 2, 3, 4}, draws []))"
  by (rule rectangle_loop_aux[OF rectangle_pool])

lemma rectangle_shuffle:
  "random_shuffle [0, 1, 2, 3, 4 :: int] (draws []) = ([1, 2, 3, 4, 0], draws [])"
  by (simp add: random_shuffle_def shuffle_loop_numeral)

lemma rectangle_labels:
  "label_options 2 [1, 2, 3, 4, 0] =
     Inr ([(''A'', i2s 1), (''B'', i2s 2), (''C'', i2s 3), (''D'', i2s 4), (''E'', i2s 0)], ''B'')"
  by (simp add: label_options_def labels_def upt_rec)

lemma rectangle_options:
  "mcq_options_small_set 2 [0, 1, 2, 3, 4] (draws [0, 6, 3, 4]) =
     Some (Inr (([(''A'', i2s 1), (''B'', i2s 2), (''C'', i2s 3), (''D'', i2s 4), (''E'', i2s 0)], ''B''), draws []))"
  by (simp only: mcq_options_small_set_def rectangle_loop rectangle_list rectangle_shuffle
      rectangle_labels option.case sum.case prod.case)

lemma tier_ranges:
  "map_of DIFF_RANGES diff = Some rng \<Longrightarrow> rng \<in> {(1, 10), (11, 50), (51, 100)}"
  by (auto simp: DIFF_RANGES_def split: if_splits)

lemma trapezium_loop:
  "mcq_int_loop RandomShapeGenerator 44 9 {44} (draws [0, 0, 10, 0, 2, 0, 3, 0]) =
     Some (Inr ({44, 43, 42, 41, 40}, draws []))"
  by (simp add: mcq_int_loop.simps random_randint_def random_choice_numeral draw_val_def insert_commute
      cong: sum.case_cong_weak prod.case_cong_weak if_weak_cong)

lemma trapezium_list: "list_of_set {44, 43, 42, 41, 40} = [40, 41, 42, 43, 44]"
  by (simp add: list_of_set_def)

lemma trapezium_shuffle:
  "random_shuffle [40, 41, 42, 43, 44 :: int] (draws []) = ([41, 42, 43, 44, 40], draws [])"
  by (simp add: random_shuffle_def shuffle_loop_numeral)

lemma trapezium_labels:
  "label_options 44 [41, 42, 43, 44, 40] =
     Inr ([(''A'', i2s 41), (''B'', i2s 42), (''C'', i2s 43), (''D'', i2s 44), (''E'', i2s 40)], ''D'')"
  by (simp add: label_options_def labels_def upt_rec)

lemma trapezium_options:
  "mcq_options_int RandomShapeGenerator 44 (draws [0, 0, 10, 0, 2, 0, 3, 0]) =
     Some (Inr (([(''A'', i2s 41), (''B'', i2s 42), (''C'', i2s 43), (''D'', i2s 44), (''E'', i2s 40)], ''D''),
       draws []))"
  by (simp add: mcq_options_int_def mcq_limit_eq trapezium_loop trapezium_list trapezium_shuffle
      trapezium_labels)

lemma missing_loop:
  "mcq_int_loop RandomShapeGenerator 5 8 {5} (draws [0, 3, 9, 3, 2, 0, 3, 0]) =
     Some (Inr ({5, 6, 7, 2, 1}, draws []))"
  by (simp add: mcq_int_loop.simps random_randint_def random_choice_numeral draw_val_def insert_commute
      cong: sum.case_cong_weak prod.case_cong_weak if_weak_cong)

lemma missing_list: "list_of_set {5, 6, 7, 2, 1} = [1, 2, 5, 6, 7]"
  by (simp add: list_of_set_def)

lemma missing_shuffle:
  "random_shuffle [1, 2, 5, 6, 7 :: int] (draws []) = ([2, 5, 6, 7, 1], draws [])"
  by (simp add: random_shuffle_def shuffle_loop_numeral)

lemma missing_labels:
  "label_options 5 [2, 5, 6, 7, 1] =
     Inr ([(''A'', i2s 2), (''B'', i2s 5), (''C'', i2s 6), (''D'', i2s 7), (''E'', i2s 1)], ''B'')"
  by (simp add: label_options_def labels_def upt_rec)

lemma missing_options:
  "mcq_options_int RandomShapeGenerator 5 (draws [0, 3, 9, 3, 2, 0, 3, 0]) =
     Some (Inr (([(''A'', i2s 2), (''B'', i2s 5), (''C'', i2s 6), (''D'', i2s 7), (''E'', i2s 1)], ''B''),
       draws []))"
  by (simp add: mcq_options_int_def mcq_limit_eq missing_loop missing_list missing_shuffle
      missing_labels)

lemma missing_run:
  "gen_one RandomShapeGenerator ''square'' ''easy'' (draws [2, 4, 0, 3, 9, 3, 2, 0, 3, 0]) =
     Some (Inr (\<lparr>qtext = given_area RandomShapeGenerator 25 ''side length'',
                 opts = [(''A'', i2s 2), (''B'', i2s 5), (''C'', i2s 6), (''D'', i2s 7), (''E'', i2s 1)],
                 correct_letter = ''B'', figure = Square_dims 5, correct = 5\<rparr>, draws []))"
  by (simp add: gen_one_def DIFF_RANGES_def Q_TYPES_def gen_square_def square_question_def
      build_question_def missing_options random_randint_def random_choice_numeral)

subsection \<open>Rounding to the nearest integer and bounds of pi\<close>

lemma py_round_nearest: "\<bar>real_of_int (py_round x) - x\<bar> \<le> 1 / 2"
proof -
  have "of_int \<lfloor>x\<rfloor> \<le> x" "x < of_int \<lfloor>x\<rfloor> + 1" by linarith+
  then show ?thesis by (auto simp: py_round_def Let_def)
qed

lemma py_round_half: "py_round (of_int n + 1 / 2) = (if even n then n else n + 1)"
proof -
  have "\<lfloor>real_of_int n + 1 / 2\<rfloor> = n" by linarith
  then show ?thesis by (simp add: py_round_def Let_def)
qed

lemma py_round_between:
  assumes "real_of_int n - 1 / 2 < x" "x < real_of_int n + 1 / 2"
  shows "py_round x = n"
proof -
  have fl: "of_int \<lfloor>x\<rfloor> \<le> x" "x < of_int \<lfloor>x\<rfloor> + 1" by linarith+
  with assms have "\<lfloor>x\<rfloor> = n \<or> \<lfloor>x\<rfloor> = n - 1" by linarith
  then show ?thesis
  proof
    assume "\<lfloor>x\<rfloor> = n"
    with assms show ?thesis by (simp add: py_round_def Let_def)
  next
    assume "\<lfloor>x\<rfloor> = n - 1"
    with assms show ?thesis by (simp add: py_round_def Let_def)
  qed
qed

lemma pi_lower: "37 / 12 < pi"
proof -
  have s2: "141 / 100 < sqrt 2" by (rule real_less_rsqrt) (simp add: power2_eq_square)
  have s3: "173 / 100 < sqrt 3" by (rule real_less_rsqrt) (simp add: power2_eq_square)
  have "sin (pi / 12) = sin (pi / 4 - pi / 6)" by (simp add: field_simps)
  also have "\<dots> = sqrt 2 / 2 * (sqrt 3 / 2) - sqrt 2 / 2 * (1 / 2)"
    by (simp only: sin_diff sin_45 cos_45 sin_30 cos_30)
  also have "\<dots> = sqrt 2 * (sqrt 3 - 1) / 4" by (simp add: field_simps)
  finally have e: "sin (pi / 12) = sqrt 2 * (sqrt 3 - 1) / 4" .
  have "141 / 100 * (73 / 100) < sqrt 2 * (sqrt 3 - 1)"
    using s2 s3 by (intro mult_strict_mono) simp_all
  then have "37 / 12 / 12 < sin (pi / 12)" unfolding e by simp
  also have "sin (pi / 12) \<le> pi / 12" by (rule sin_x_le_x) simp
  finally show ?thesis by simp
qed

lemma pi_upper: "pi < 13 / 4"
proof -
  let ?x = "13 / 8 :: real"
  obtain t where c: "cos ?x = (\<Sum>m<6. cos_coeff m * ?x ^ m) + cos (t + 1 / 2 * real 6 * pi) / fact 6 * ?x ^ 6"
    using Maclaurin_cos_expansion[of ?x 6] by blast
  have sum: "(\<Sum>m<6. cos_coeff m * ?x ^ m) = 1 - ?x\<^sup>2 / 2 + ?x ^ 4 / 24"
    by (simp add: cos_coeff_def lessThan_nat_numeral fact_numeral)
  have "cos (t + 1 / 2 * real 6 * pi) / fact 6 * ?x ^ 6 \<le> 1 / fact 6 * ?x ^ 6"
    by (intro mult_right_mono divide_right_mono) simp_all
  with c sum have "cos ?x \<le> 1 - ?x\<^sup>2 / 2 + ?x ^ 4 / 24 + 1 / fact 6 * ?x ^ 6" by linarith
  also have "\<dots> < 0" by (simp add: fact_numeral power_divide)
  finally have neg: "cos ?x < 0" .
  show ?thesis
  proof (rule ccontr)
    assume "\<not> pi < 13 / 4"
    then have "?x \<le> pi / 2" by simp
    then have "0 \<le> cos ?x" by (intro cos_ge_zero) simp_all
    with neg show False by simp
  qed
qed

lemma circumference_3: "clamp_int (2 * pi * of_int 3) = 19"
  unfolding clamp_int_def
  by (rule py_round_between) (use pi_lower pi_upper in simp_all)

lemma circle_3_question:
  "circle_question v 3 ''perimeter'' = (circumference_q, 19, Options_int)"
  unfolding circle_question_def circumference_3 by simp

lemma circle_loop:
  "mcq_int_loop RandomShapeGenerator 19 8 {19} (draws [0, 3, 9, 3, 2, 0, 3, 0]) =
     Some (Inr ({19, 20, 21, 16, 15}, draws []))"
  by (simp add: mcq_int_loop.simps random_randint_def random_choice_numeral draw_val_def insert_commute
      cong: sum.case_cong_weak prod.case_cong_weak if_weak_cong)

lemma circle_list: "list_of_set {19, 20, 21, 16, 15} = [15, 16, 19, 20, 21]"
  by (simp add: list_of_set_def)

lemma circle_shuffle:
  "random_shuffle [15, 16, 19, 20, 21 :: int] (draws []) = ([16, 19, 20, 21, 15], draws [])"
  by (simp add: random_shuffle_def shuffle_loop_numeral)

lemma circle_labels:
  "label_options 19 [16, 19, 20, 21, 15] =
     Inr ([(''A'', i2s 16), (''B'', i2s 19), (''C'', i2s 20), (''D'', i2s 21), (''E'', i2s 15)], ''B'')"
  by (simp add: label_options_def labels_def upt_rec)

lemma circle_options:
  "mcq_options_int RandomShapeGenerator 19 (draws [0, 3, 9, 3, 2, 0, 3, 0]) =
     Some (Inr (([(''A'', i2s 16), (''B'', i2s 19), (''C'', i2s 20), (''D'', i2s 21), (''E'', i2s 15)], ''B''),
       draws []))"
  by (simp add: mcq_options_int_def mcq_limit_eq circle_loop circle_list circle_shuffle
      circle_labels)

lemma circle_gen:
  "gen_circle RandomShapeGenerator (1, 10) ''perimeter'' (draws [2, 0, 3, 9, 3, 2, 0, 3, 0]) =
     Some (Inr (\<lparr>qtext = circumference_q,
                 opts = [(''A'', i2s 16), (''B'', i2s 19), (''C'', i2s 20), (''D'', i2s 21), (''E'', i2s 15)],
                 correct_letter = ''B'', figure = Circle_dims 3, correct = 19\<rparr>, draws []))"
  by (simp add: gen_circle_def random_randint_def circle_3_question build_question_def circle_options)

lemma circle_run:
  "gen_one RandomShapeGenerator ''circle'' ''easy'' (draws [4, 2, 0, 3, 9, 3, 2, 0, 3, 0]) =
     Some (Inr (\<lparr>qtext = circumference_q,
                 opts = [(''A'', i2s 16), (''B'', i2s 19), (''C'', i2s 20), (''D'', i2s 21), (''E'', i2s 15)],
                 correct_letter = ''B'', figure = Circle_dims 3, correct = 19\<rparr>, draws []))"
  by (simp add: gen_one_def DIFF_RANGES_def random_choice_numeral circle_gen)

lemma circumference_unit: "clamp_int (2 * pi * of_int 1) = 6"
  unfolding clamp_int_def
  by (rule py_round_between) (use pi_lower pi_upper in simp_all)

lemma circle_unit_question:
  "circle_question v 1 ''missing'' = (given_circumference 6, 1, Options_int)"
  unfolding circle_question_def using circumference_unit by simp

lemma unit_loop:
  "mcq_int_loop RandomShapeGenerator 1 8 {1} (draws [0, 3, 9, 3, 2, 3, 3, 3]) =
     Some (Inr ({1, 2, 3, 4, 5}, draws []))"
  by (simp add: mcq_int_loop.simps random_randint_def random_choice_numeral draw_val_def insert_commute
      cong: sum.case_cong_weak prod.case_cong_weak if_weak_cong)

lemma unit_list: "list_of_set {1, 2, 3, 4, 5} = [1, 2, 3, 4, 5]"
  by (simp add: list_of_set_def)

lemma unit_shuffle:
  "random_shuffle [1, 2, 3, 4, 5 :: int] (draws []) = ([2, 3, 4, 5, 1], draws [])"
  by (simp add: random_shuffle_def shuffle_loop_numeral)

lemma unit_labels:
  "label_options 1 [2, 3, 4, 5, 1] =
     Inr ([(''A'', i2s 2), (''B'', i2s 3), (''C'', i2s 4), (''D'', i2s 5), (''E'', i2s 1)], ''E'')"
  by (simp add: label_options_def labels_def upt_rec)

lemma unit_options:
  "mcq_options_int RandomShapeGenerator 1 (draws [0, 3, 9, 3, 2, 3, 3, 3]) =
     Some (Inr (([(''A'', i2s 2), (''B'', i2s 3), (''C'', i2s 4), (''D'', i2s 5), (''E'', i2s 1)], ''E''),
       draws []))"
  by (simp add: mcq_options_int_def mcq_limit_eq unit_loop unit_list unit_shuffle unit_labels)

lemma circle_unit_gen:
  "gen_circle RandomShapeGenerator (1, 10) ''missing'' (draws [0, 0, 3, 9, 3, 2, 3, 3, 3]) =
     Some (Inr (\<lparr>qtext = given_circumference 6,
                 opts = [(''A'', i2s 2), (''B'', i2s 3), (''C'', i2s 4), (''D'', i2s 5), (''E'', i2s 1)],
                 correct_letter = ''E'', figure = Circle_dims 1, correct = 1\<rparr>, draws []))"
  by (simp add: gen_circle_def random_randint_def circle_unit_question build_question_def unit_options)

lemma circle_unit_run:
  "gen_one RandomShapeGenerator ''circle'' ''easy'' (draws [2, 0, 0, 3, 9, 3, 2, 3, 3, 3]) =
     Some (Inr (\<lparr>qtext = given_circumference 6,
                 opts = [(''A'', i2s 2), (''B'', i2s 3), (''C'', i2s 4), (''D'', i2s 5), (''E'', i2s 1)],
                 correct_letter = ''E'', figure = Circle_dims 1, correct = 1\<rparr>, draws []))"
  by (simp add: gen_one_def DIFF_RANGES_def random_choice_numeral circle_unit_gen)

lemma circumference_text:
  "given_circumference 6 = ''The circumference is 6 cm. Find the radius (in cm).''"
  by (simp add: given_circumference_def i2s_def nat_digits.simps digit_char_def)

subsection \<open>Records and image paths\<close>

lemma build_one_parts:
  assumes "build_one v idx rs = Some (Inr (e, rs'))"
  obtains diff shape g rs2 where
    "diff \<in> set DIFF_LIST" "gen_one v shape diff rs2 = Some (Inr (g, rs'))"
    "make_entry v g diff idx = Inr e"
proof -
  from assms obtain diff rs1 where c1: "random_choice DIFF_LIST rs = Inr (diff, rs1)"
    unfolding build_one_def by (cases "random_choice DIFF_LIST rs") auto
  with assms obtain shape rs2 where c2: "random_choice SHAPES rs1 = Inr (shape, rs2)"
    unfolding build_one_def by (cases "random_choice SHAPES rs1") auto
  from assms c1 c2 obtain g rs3 where g: "gen_one v shape diff rs2 = Some (Inr (g, rs3))"
    unfolding build_one_def by (cases "gen_one v shape diff rs2") (auto split: sum.splits)
  from assms c1 c2 g have m: "make_entry v g diff idx = Inr e" and "rs3 = rs'"
    unfolding build_one_def by (auto split: sum.splits)
  with g random_choice_mem[OF c1] that show ?thesis by blast
qed

lemma make_entry_img_path: "make_entry v g diff idx = Inr e \<Longrightarrow> img_path e = image_path diff idx"
  by (cases v) (auto simp: make_entry_def split: option.splits)

lemma build_one_img_path:
  assumes "build_one v idx rs = Some (Inr (e, rs'))"
  shows "\<exists>diff \<in> set DIFF_LIST. img_path e = image_path diff idx"
  using assms by (elim build_one_parts) (auto dest: make_entry_img_path)

lemma image_path_inj:
  assumes "d \<in> set DIFF_LIST" "d' \<in> set DIFF_LIST" "image_path d i = image_path d' j"
  shows "i = j"
proof -
  from assms(1,2) have dd: "d \<in> {''easy'', ''medium'', ''difficult''}" "d' \<in> {''easy'', ''medium'', ''difficult''}"
    by (auto simp: DIFF_LIST_def DIFF_RANGES_def)
  from assms(3) have e: "d @ ''/Q'' @ i2s i @ ''.png'' = d' @ ''/Q'' @ i2s j @ ''.png''"
    by (simp add: image_path_def BASE_IMG_DIR_def)
  with dd have "d = d'" by auto
  with e have "i2s i = i2s j" by simp
  then show ?thesis by (rule i2s_inj)
qed

lemma u1_loop:
  "mcq_int_loop Untitled1 25 6 {25} (draws [0, 3, 7, 3, 2, 0, 3, 0]) =
     Some (Inr ({25, 26, 27, 22, 21}, draws []))"
  by (simp add: mcq_int_loop.simps random_randint_def random_choice_numeral draw_val_def insert_commute
      cong: sum.case_cong_weak prod.case_cong_weak if_weak_cong)

lemma u1_options:
  "mcq_options_int Untitled1 25 (draws [0, 3, 7, 3, 2, 0, 3, 0]) =
     Some (Inr (([(''A'', ''22''), (''B'', ''25''), (''C'', ''26''), (''D'', ''27''), (''E'', ''21'')], ''B''), draws []))"
  by (simp add: mcq_options_int_def mcq_limit_eq u1_loop square_list square_shuffle square_labels)

lemma u1_run:
  "gen_one Untitled1 ''square'' ''easy'' (draws [0, 4, 0, 3, 7, 3, 2, 0, 3, 0]) =
     Some (Inr (\<lparr>qtext = area_q,
                 opts = [(''A'', ''22''), (''B'', ''25''), (''C'', ''26''), (''D'', ''27''), (''E'', ''21'')],
                 correct_letter = ''B'', figure = Square_dims 5, correct = 25\<rparr>, draws []))"
  by (simp add: gen_one_def DIFF_RANGES_def Q_TYPES_def gen_square_def square_question_def
      build_question_def u1_options random_randint_def random_choice_numeral)

lemma u1_build:
  "build_one Untitled1 idx (draws [0, 0, 0, 4, 0, 3, 7, 3, 2, 0, 3, 0]) =
     Some (Inr (\<lparr>question = area_q, correct_answer = ''B'',
                 options = [(''A'', ''22''), (''B'', ''25''), (''C'', ''26''), (''D'', ''27''), (''E'', ''21'')],
                 difficulty_level = ''easy'', img_path = image_path ''easy'' idx\<rparr>, draws []))"
  by (simp add: build_one_def DIFF_LIST_def DIFF_RANGES_def SHAPES_def random_choice_numeral u1_run
      make_entry_def)

lemma rsg_build:
  "build_one RandomShapeGenerator idx (draws [0, 0, 0, 4, 0, 3, 9, 3, 2, 0, 3, 0]) =
     Some (Inr (\<lparr>question = area_q, correct_answer = ''25'',
                 options = [(''A'', ''22''), (''B'', ''25''), (''C'', ''26''), (''D'', ''27''), (''E'', ''21'')],
                 difficulty_level = ''easy'', img_path = image_path ''easy'' idx\<rparr>, draws []))"
  by (simp add: build_one_def DIFF_LIST_def DIFF_RANGES_def SHAPES_def random_choice_numeral square_run
      make_entry_def)

lemma u1_build_sample:
  "build_one Untitled1 idx (draws [0, 0, 0, 4, 0, 3, 7, 3, 2, 0, 3, 0]) =
     Some (Inr (sample_entry idx, draws []))"
  by (simp add: u1_build sample_entry_def)

lemma sample_paths:
  "img_path (sample_entry 1) = ''images/easy/Q1.png''"
  "img_path (sample_entry 2) = ''images/easy/Q2.png''"
  "img_path (sample_entry 3) = ''images/easy/Q3.png''"
  "img_path (sample_entry 4) = ''images/easy/Q4.png''"
  "img_path (sample_entry 5) = ''images/easy/Q5.png''"
  "img_path (sample_entry 6) = ''images/easy/Q6.png''"
  "img_path (sample_entry 7) = ''images/easy/Q7.png''"
  "img_path (sample_entry 8) = ''images/easy/Q8.png''"
  "img_path (sample_entry 9) = ''images/easy/Q9.png''"
  "img_path (sample_entry 10) = ''images/easy/Q10.png''"
  by (simp_all add: sample_entry_def image_path_def BASE_IMG_DIR_def i2s_def nat_digits.simps
      digit_char_def)

lemma sample_sorted:
  "main_manifest (map sample_entry [1, 2, 3, 4, 5, 6, 7, 8, 9, 10]) =
     map sample_entry [1, 10, 2, 3, 4, 5, 6, 7, 8, 9]"
  by (simp add: main_manifest_def sample_paths)

lemma filter_key_single:
  "distinct xs \<Longrightarrow> inj_on f (set xs) \<Longrightarrow> k \<in> set xs \<Longrightarrow> filter (\<lambda>x. f k = f x) xs = [k]"
  by (induction xs) (auto simp: filter_empty_conv inj_on_def)

subsection \<open>Scalene sampling\<close>

lemma advance_0 [simp]: "advance 0 rs = rs"
  by (simp add: advance_def)

lemma advance_advance: "advance k (advance j rs) = advance (j + k) rs"
  by (simp add: advance_def fun_eq_iff ac_simps)

lemma rest_advance: "rest rs = advance 1 rs"
  by (simp add: rest_def advance_def)

lemma random_randint_rest: "random_randint a b rs = Inr (x, rs1) \<Longrightarrow> rs1 = rest rs"
  by (auto simp: random_randint_def randbelow_def split: if_splits)

lemma sample_sides_advance:
  assumes "sample_sides rng rs = Inr (t, rs1)"
  shows "rs1 = advance 3 rs"
proof -
  from assms obtain a r1 b r2 c where
    "random_randint (fst rng) (snd rng) rs = Inr (a, r1)"
    "random_randint (fst rng) (snd rng) r1 = Inr (b, r2)"
    "random_randint (fst rng) (snd rng) r2 = Inr (c, rs1)"
    unfolding sample_sides_def by (auto split: sum.splits)
  then have "rs1 = rest (rest (rest rs))" by (auto dest!: random_randint_rest)
  then show ?thesis by (simp add: rest_advance advance_advance eval_nat_numeral)
qed

lemma triple_at_0: "triple_at rng rs 0 = sample_sides rng rs"
  by (simp add: triple_at_def)

lemma triple_at_Suc: "triple_at rng rs (Suc k) = triple_at rng (advance 3 rs) k"
  by (simp add: triple_at_def advance_advance)

lemma scalene_resample_chosen:
  "scalene_resample rng t n rs = Inr (t', rs') \<Longrightarrow> n \<le> 100 \<Longrightarrow>
     (t' = t \<and> (accepted RandomShapeGenerator t \<or> n = 100)) \<or>
     (\<not> accepted RandomShapeGenerator t \<and>
      (\<exists>k < 100 - n. (\<exists>r. triple_at rng rs k = Inr (t', r)) \<and>
         (\<forall>j < k. \<forall>t1 r. triple_at rng rs j = Inr (t1, r) \<longrightarrow> \<not> accepted RandomShapeGenerator t1) \<and>
         (accepted RandomShapeGenerator t' \<or> k = 99 - n)))"
proof (induction rng t n rs rule: scalene_resample.induct)
  case (1 rng t attempts rs)
  obtain a b c where t: "t = (a, b, c)" by (cases t)
  show ?case
  proof (cases "\<not> valid a b c \<and> attempts < 100")
    case False
    with 1(2) t have "t' = t" by (subst (asm) scalene_resample.simps) auto
    with False t 1(3) show ?thesis by (auto simp: accepted_def)
  next
    case True
    from 1(2) True t obtain t1 rs1 where s: "sample_sides rng rs = Inr (t1, rs1)"
      and r: "scalene_resample rng t1 (attempts + 1) rs1 = Inr (t', rs')"
      by (subst (asm) scalene_resample.simps) (auto split: sum.splits)
    have rs1: "rs1 = advance 3 rs" by (rule sample_sides_advance[OF s])
    from True have le: "attempts + 1 \<le> 100" by simp
    have nt: "\<not> accepted RandomShapeGenerator t" using True t by (simp add: accepted_def)
    from 1(1)[OF t[symmetric] refl True s refl r le]
    consider (same) "t' = t1" "accepted RandomShapeGenerator t1 \<or> attempts + 1 = 100"
      | (later) k where "\<not> accepted RandomShapeGenerator t1" "k < 100 - (attempts + 1)"
          "\<exists>r. triple_at rng rs1 k = Inr (t', r)"
          "\<forall>j < k. \<forall>t2 r. triple_at rng rs1 j = Inr (t2, r) \<longrightarrow> \<not> accepted RandomShapeGenerator t2"
          "accepted RandomShapeGenerator t' \<or> k = 99 - (attempts + 1)"
      by blast
    then show ?thesis
    proof cases
      case same
      have a: "0 < 100 - attempts" using True by simp
      have b: "\<exists>r. triple_at rng rs 0 = Inr (t', r)" using s same(1) by (simp add: triple_at_0)
      have c: "accepted RandomShapeGenerator t' \<or> 0 = 99 - attempts" using same by auto
      from a b c nt show ?thesis by blast
    next
      case later
      have a: "Suc k < 100 - attempts" using later(2) by simp
      have b: "\<exists>r. triple_at rng rs (Suc k) = Inr (t', r)"
        using later(3) by (simp add: triple_at_Suc rs1)
      have c: "\<not> accepted RandomShapeGenerator t2"
        if "j < Suc k" "triple_at rng rs j = Inr (t2, r)" for j t2 r
      proof (cases j)
        case 0
        with that s have "t2 = t1" by (simp add: triple_at_0)
        with later(1) show ?thesis by simp
      next
        case (Suc j')
        with that have "j' < k" "triple_at rng rs1 j' = Inr (t2, r)"
          by (simp_all add: triple_at_Suc rs1)
        with later(4) show ?thesis by blast
      qed
      have d: "accepted RandomShapeGenerator t' \<or> Suc k = 99 - attempts"
        using later(5) later(2) by auto
      from a b c d nt show ?thesis by blast
    qed
  qed
qed

lemma scalene_tries_chosen:
  "scalene_tries rng t n rs = Inr (t', rs') \<Longrightarrow> n < 100 \<Longrightarrow>
     \<exists>k < 100 - n. (\<exists>r. triple_at rng rs k = Inr (t', r)) \<and>
       (\<forall>j < k. \<forall>t1 r. triple_at rng rs j = Inr (t1, r) \<longrightarrow> \<not> accepted Untitled1 t1) \<and>
       (accepted Untitled1 t' \<or> k = 99 - n)"
proof (induction rng t n rs rule: scalene_tries.induct)
  case (1 rng t tries rs)
  from 1(2,3) obtain a b c rs1 where s: "sample_sides rng rs = Inr ((a, b, c), rs1)"
    and r: "(if valid a b c \<and> card {a, b, c} = 3 then Inr ((a, b, c), rs1)
             else scalene_tries rng (a, b, c) (tries + 1) rs1) = Inr (t', rs')"
    by (subst (asm) scalene_tries.simps) (auto split: sum.splits)
  have rs1: "rs1 = advance 3 rs" by (rule sample_sides_advance[OF s])
  have pos: "0 < 100 - tries" using 1(3) by simp
  show ?case
  proof (cases "valid a b c \<and> card {a, b, c} = 3")
    case True
    with r have t': "t' = (a, b, c)" by simp
    have b: "\<exists>r. triple_at rng rs 0 = Inr (t', r)" using s t' by (simp add: triple_at_0)
    have c: "accepted Untitled1 t'" using True t' by (simp add: accepted_def)
    from pos b c show ?thesis by blast
  next
    case False
    then have na: "\<not> accepted Untitled1 (a, b, c)" by (simp add: accepted_def)
    from False r have r': "scalene_tries rng (a, b, c) (tries + 1) rs1 = Inr (t', rs')"
      by (auto split: if_splits)
    show ?thesis
    proof (cases "tries + 1 < 100")
      case True
      from 1(1)[OF 1(3) s refl refl refl False r' True] obtain k where
        k: "k < 100 - (tries + 1)" "\<exists>r. triple_at rng rs1 k = Inr (t', r)"
          "\<forall>j < k. \<forall>t1 r. triple_at rng rs1 j = Inr (t1, r) \<longrightarrow> \<not> accepted Untitled1 t1"
          "accepted Untitled1 t' \<or> k = 99 - (tries + 1)"
        by blast
      have a: "Suc k < 100 - tries" using k(1) by simp
      have b: "\<exists>r. triple_at rng rs (Suc k) = Inr (t', r)"
        using k(2) by (simp add: triple_at_Suc rs1)
      have c: "\<not> accepted Untitled1 t2"
        if "j < Suc k" "triple_at rng rs j = Inr (t2, r)" for j t2 r
      proof (cases j)
        case 0
        with that s have "t2 = (a, b, c)" by (simp add: triple_at_0)
        with na show ?thesis by simp
      next
        case (Suc j')
        with that have "j' < k" "triple_at rng rs1 j' = Inr (t2, r)"
          by (simp_all add: triple_at_Suc rs1)
        with k(3) show ?thesis by blast
      qed
      have d: "accepted Untitled1 t' \<or> Suc k = 99 - tries" using k(4) k(1) by auto
      from a b c d show ?thesis by blast
    next
      case False
      with r' have t': "t' = (a, b, c)" by (subst (asm) scalene_tries.simps) simp
      have b: "\<exists>r. triple_at rng rs 0 = Inr (t', r)" using s t' by (simp add: triple_at_0)
      have c: "(0 :: nat) = 99 - tries" using False 1(3) by simp
      from pos b c show ?thesis by blast
    qed
  qed
qed

lemma sample_scalene_chosen:
  assumes "sample_scalene v rng rs = Inr (t, rs')"
  shows "\<exists>k < budget v. (\<exists>r. triple_at rng rs k = Inr (t, r)) \<and>
           (\<forall>j < k. \<forall>t1 r. triple_at rng rs j = Inr (t1, r) \<longrightarrow> \<not> accepted v t1) \<and>
           (accepted v t \<or> k = budget v - 1)"
proof (cases v)
  case RandomShapeGenerator
  with assms obtain t0 rs1 where s: "sample_sides rng rs = Inr (t0, rs1)"
    and r: "scalene_resample rng t0 0 rs1 = Inr (t, rs')"
    by (auto simp: sample_scalene_def split: sum.splits)
  have rs1: "rs1 = advance 3 rs" by (rule sample_sides_advance[OF s])
  from scalene_resample_chosen[OF r]
  consider (first) "t = t0" "accepted RandomShapeGenerator t0"
    | (later) k where "\<not> accepted RandomShapeGenerator t0" "k < 100"
        "\<exists>r. triple_at rng rs1 k = Inr (t, r)"
        "\<forall>j < k. \<forall>t1 r. triple_at rng rs1 j = Inr (t1, r) \<longrightarrow> \<not> accepted RandomShapeGenerator t1"
        "accepted RandomShapeGenerator t \<or> k = 99"
    by auto
  then show ?thesis
  proof cases
    case first
    have a: "0 < budget v" by (simp add: budget_def RandomShapeGenerator)
    have b: "\<exists>r. triple_at rng rs 0 = Inr (t, r)" using s first(1) by (simp add: triple_at_0)
    have c: "accepted v t" using first RandomShapeGenerator by simp
    from a b c show ?thesis by blast
  next
    case later
    have a: "Suc k < budget v" using later(2) by (simp add: budget_def RandomShapeGenerator)
    have b: "\<exists>r. triple_at rng rs (Suc k) = Inr (t, r)"
      using later(3) by (simp add: triple_at_Suc rs1)
    have c: "\<not> accepted v t2" if "j < Suc k" "triple_at rng rs j = Inr (t2, r)" for j t2 r
    proof (cases j)
      case 0
      with that s have "t2 = t0" by (simp add: triple_at_0)
      with later(1) RandomShapeGenerator show ?thesis by simp
    next
      case (Suc j')
      with that have "j' < k" "triple_at rng rs1 j' = Inr (t2, r)"
        by (simp_all add: triple_at_Suc rs1)
      with later(4) RandomShapeGenerator show ?thesis by blast
    qed
    have d: "accepted v t \<or> Suc k = budget v - 1"
      using later(5) by (auto simp: budget_def RandomShapeGenerator)
    from a b c d show ?thesis by blast
  qed
next
  case Untitled1
  with assms have "scalene_tries rng (0, 0, 0) 0 rs = Inr (t, rs')"
    by (simp add: sample_scalene_def)
  from scalene_tries_chosen[OF this] Untitled1 show ?thesis by (simp add: budget_def)
qed

lemma accepted_valid: "accepted v (a, b, c) \<Longrightarrow> valid a b c"
  by (cases v) (simp_all add: accepted_def)

lemma narrow_range_valid:
  "dims_in_tier rng (Scalene_dims a b c) \<Longrightarrow> snd rng < 2 * fst rng \<Longrightarrow> valid a b c"
  by (cases rng) (auto simp: valid_def)

lemma degenerate_sample:
  "sample_sides (1, 10) (draws (0 # 0 # 9 # xs)) = Inr ((1, 1, 10), draws xs)"
  by (simp add: sample_sides_def random_randint_def)

lemma degenerate_step:
  assumes "m < 100"
  shows "scalene_resample (1, 10) (1, 1, 10) m (draws (0 # 0 # 9 # xs)) =
         scalene_resample (1, 10) (1, 1, 10) (m + 1) (draws xs)"
proof -
  have nv: "\<not> valid 1 1 10" by (simp add: valid_def)
  show ?thesis
    by (subst scalene_resample.simps) (simp add: nv assms degenerate_sample)
qed

lemma degenerate_rounds:
  "k \<le> 100 \<Longrightarrow>
     scalene_resample (1, 10) (1, 1, 10) (100 - k) (draws (concat (replicate k [0, 0, 9]) @ ys)) =
       Inr ((1, 1, 10), draws ys)"
proof (induction k)
  case 0
  show ?case by (subst scalene_resample.simps) simp
next
  case (Suc k)
  define m where "m = 100 - Suc k"
  from Suc.prems have k: "k \<le> 100" and a: "m < 100" and n: "m + 1 = 100 - k"
    by (simp_all add: m_def)
  have "scalene_resample (1, 10) (1, 1, 10) m
      (draws (0 # 0 # 9 # concat (replicate k [0, 0, 9]) @ ys)) =
    scalene_resample (1, 10) (1, 1, 10) (m + 1) (draws (concat (replicate k [0, 0, 9]) @ ys))"
    by (rule degenerate_step[OF a])
  also have "\<dots> = Inr ((1, 1, 10), draws ys)" unfolding n by (rule Suc.IH[OF k])
  finally show ?case unfolding m_def by simp
qed

lemma degenerate_scalene:
  "sample_scalene RandomShapeGenerator (1, 10) (draws (concat (replicate 101 [0, 0, 9]) @ ys)) =
     Inr ((1, 1, 10), draws ys)"
proof -
  have r: "replicate 101 [0, 0, 9 :: nat] = [0, 0, 9] # replicate 100 [0, 0, 9]"
    by (simp add: eval_nat_numeral(1) replicate_Suc[symmetric] del: replicate_Suc replicate.simps)
  show ?thesis
    unfolding sample_scalene_def r
    using degenerate_rounds[of 100 ys] by (simp add: degenerate_sample)
qed

lemma perimeter_loop:
  "mcq_int_loop RandomShapeGenerator 12 8 {12} (draws [7, 0, 9, 0, 3, 0, 5, 0]) =
     Some (Inr ({12, 4, 10, 8, 6}, draws []))"
  by (simp add: mcq_int_loop.simps random_randint_def random_choice_numeral draw_val_def insert_commute
      cong: sum.case_cong_weak prod.case_cong_weak if_weak_cong)

lemma perimeter_list: "list_of_set {12, 4, 10, 8, 6} = [4, 6, 8, 10, 12]"
  by (simp add: list_of_set_def)

lemma perimeter_shuffle:
  "random_shuffle [4, 6, 8, 10, 12 :: int] (draws []) = ([6, 8, 10, 12, 4], draws [])"
  by (simp add: random_shuffle_def shuffle_loop_numeral)

lemma perimeter_labels:
  "label_options 12 [6, 8, 10, 12, 4] =
     Inr ([(''A'', i2s 6), (''B'', i2s 8), (''C'', i2s 10), (''D'', i2s 12), (''E'', i2s 4)], ''D'')"
  by (simp add: label_options_def labels_def upt_rec)

lemma perimeter_options:
  "mcq_options_int RandomShapeGenerator 12 (draws [7, 0, 9, 0, 3, 0, 5, 0]) =
     Some (Inr (([(''A'', i2s 6), (''B'', i2s 8), (''C'', i2s 10), (''D'', i2s 12), (''E'', i2s 4)], ''D''),
       draws []))"
  by (simp add: mcq_options_int_def mcq_limit_eq perimeter_loop perimeter_list perimeter_shuffle
      perimeter_labels)

lemma valid_scalene:
  "sample_scalene RandomShapeGenerator (1, 10) (draws (2 # 3 # 4 # ys)) = Inr ((3, 4, 5), draws ys)"
  by (simp add: sample_scalene_def sample_sides_def random_randint_def scalene_resample.simps valid_def)

lemma valid_scalene_run:
  "gen_scalene_triangle RandomShapeGenerator (1, 10) ''perimeter''
       (draws [2, 3, 4, 7, 0, 9, 0, 3, 0, 5, 0]) =
     Some (Inr (\<lparr>qtext = perimeter_q,
                 opts = [(''A'', i2s 6), (''B'', i2s 8), (''C'', i2s 10), (''D'', i2s 12), (''E'', i2s 4)],
                 correct_letter = ''D'', figure = Scalene_dims 3 4 5, correct = 12\<rparr>, draws []))"
  by (simp add: gen_scalene_triangle_def valid_scalene scalene_triangle_question_def
      build_question_def perimeter_options)

lemma degenerate_scalene_gen:
  "gen_scalene_triangle RandomShapeGenerator (1, 10) ''perimeter''
       (draws (concat (replicate 101 [0, 0, 9]) @ [7, 0, 9, 0, 3, 0, 5, 0])) =
     Some (Inr (\<lparr>qtext = perimeter_q,
                 opts = [(''A'', i2s 6), (''B'', i2s 8), (''C'', i2s 10), (''D'', i2s 12), (''E'', i2s 4)],
                 correct_letter = ''D'', figure = Scalene_dims 1 1 10, correct = 12\<rparr>, draws []))"
  by (simp only: gen_scalene_triangle_def degenerate_scalene sum.case prod.case)
     (simp add: scalene_triangle_question_def build_question_def perimeter_options)

subsection \<open>Termination of the option loops\<close>

lemma randint_total: "a \<le> b \<Longrightarrow> \<exists>x. random_randint a b rs = Inr (x, rest rs)"
  by (simp add: random_randint_def randbelow_def)

lemma draw_val_total: "\<exists>x. draw_val v c delta rs = Inr (x, rest rs)"
  by (cases v) (simp_all add: draw_val_def random_choice_def randbelow_def)

lemma rest_rest: "rest (rest rs) = advance 2 rs"
  by (simp add: rest_advance advance_advance eval_nat_numeral)

lemma round_total:
  assumes "1 \<le> l"
  shows "\<exists>delta. random_randint 1 l rs = Inr (delta, rest rs) \<and>
           draw_val v c delta (rest rs) = Inr (candidate_at v c l rs 0, advance 2 rs)"
proof -
  from randint_total[OF assms] obtain delta where r: "random_randint 1 l rs = Inr (delta, rest rs)"
    by blast
  from draw_val_total obtain x where d: "draw_val v c delta (rest rs) = Inr (x, rest (rest rs))"
    by blast
  from r d have "candidate_at v c l rs 0 = x" by (simp add: candidate_at_def)
  with r d show ?thesis by (auto simp: rest_rest)
qed

lemma candidate_at_Suc: "candidate_at v c l rs (Suc k) = candidate_at v c l (advance 2 rs) k"
  by (simp add: candidate_at_def advance_advance)

lemma collected_0: "collected v c l rs 0 = {}"
  by (simp add: collected_def)

lemma collected_Suc:
  "collected v c l rs (Suc n) =
     (if 0 < candidate_at v c l rs 0 then {candidate_at v c l rs 0} else {}) \<union>
     collected v c l (advance 2 rs) n"
proof -
  have "(\<exists>k<Suc n. P k) \<longleftrightarrow> P 0 \<or> (\<exists>k<n. P (Suc k))" for P
    by (metis less_Suc_eq_0_disj Suc_less_eq)
  then show ?thesis
    by (auto simp: collected_def candidate_at_Suc)
qed

lemma finite_collected: "finite (collected v c l rs n)"
proof -
  have "collected v c l rs n \<subseteq> candidate_at v c l rs ` {..<n}" by (auto simp: collected_def)
  then show ?thesis by (rule finite_subset) simp
qed

lemma step_union:
  "(if 0 < x then insert x cand else cand) \<union> S = cand \<union> ((if 0 < x then {x} else {}) \<union> S)"
  by auto

lemma mcq_int_loop_unfold:
  assumes "1 \<le> l" "card cand < 5"
  shows "mcq_int_loop v c l cand rs =
         mcq_int_loop v c l
           (if 0 < candidate_at v c l rs 0 then insert (candidate_at v c l rs 0) cand else cand)
           (advance 2 rs)"
proof -
  from round_total[OF assms(1)] obtain delta where
    "random_randint 1 l rs = Inr (delta, rest rs)"
    "draw_val v c delta (rest rs) = Inr (candidate_at v c l rs 0, advance 2 rs)"
    by blast
  with assms(2) show ?thesis by (subst mcq_int_loop.simps) simp
qed

lemma mcq_int_loop_done:
  "\<not> card cand < 5 \<Longrightarrow> mcq_int_loop v c l cand rs = Some (Inr (cand, rs))"
  by (subst mcq_int_loop.simps) simp

lemma loop_returns_if_collected:
  "finite cand \<Longrightarrow> 1 \<le> l \<Longrightarrow> 5 \<le> card (cand \<union> collected v c l rs n) \<Longrightarrow>
     \<exists>cand' rs'. mcq_int_loop v c l cand rs = Some (Inr (cand', rs'))"
proof (induction n arbitrary: cand rs)
  case 0
  then have "\<not> card cand < 5" by (simp add: collected_0)
  then show ?case by (simp add: mcq_int_loop_done)
next
  case (Suc n)
  show ?case
  proof (cases "card cand < 5")
    case False
    then show ?thesis by (simp add: mcq_int_loop_done)
  next
    case True
    let ?x = "candidate_at v c l rs 0"
    let ?cand = "if 0 < ?x then insert ?x cand else cand"
    have f: "finite ?cand" using Suc.prems(1) by simp
    have "?cand \<union> collected v c l (advance 2 rs) n = cand \<union> collected v c l rs (Suc n)"
      unfolding collected_Suc by (rule step_union)
    with Suc.prems(3) have "5 \<le> card (?cand \<union> collected v c l (advance 2 rs) n)" by simp
    from Suc.IH[OF f Suc.prems(2) this] show ?thesis
      unfolding mcq_int_loop_unfold[OF Suc.prems(2) True] .
  qed
qed

lemma loop_collected_if_returns_aux:
  "mcq_int_loop v c l cand rs = Some y \<Longrightarrow>
     finite cand \<longrightarrow> 1 \<le> l \<longrightarrow> (\<exists>n. 5 \<le> card (cand \<union> collected v c l rs n))"
proof (induction rule: mcq_int_loop.raw_induct[rotated 1, consumes 1, case_names step])
  case (step loop v c l cand rs y)
  show ?case
  proof (intro impI)
    assume fin: "finite cand" and l: "1 \<le> l"
    show "\<exists>n. 5 \<le> card (cand \<union> collected v c l rs n)"
    proof (cases "card cand < 5")
      case False
      then have "5 \<le> card (cand \<union> collected v c l rs 0)" by (simp add: collected_0)
      then show ?thesis ..
    next
      case True
      let ?x = "candidate_at v c l rs 0"
      let ?cand = "if 0 < ?x then insert ?x cand else cand"
      from round_total[OF l] obtain delta where
        r: "random_randint 1 l rs = Inr (delta, rest rs)"
        "draw_val v c delta (rest rs) = Inr (?x, advance 2 rs)"
        by blast
      with step(2) True have call: "loop v c l ?cand (advance 2 rs) = Some y" by simp
      have f: "finite ?cand" using fin by simp
      from step(1)[OF call] f l obtain n where n: "5 \<le> card (?cand \<union> collected v c l (advance 2 rs) n)"
        by blast
      have "?cand \<union> collected v c l (advance 2 rs) n = cand \<union> collected v c l rs (Suc n)"
        unfolding collected_Suc by (rule step_union)
      with n have "5 \<le> card (cand \<union> collected v c l rs (Suc n))" by simp
      then show ?thesis ..
    qed
  qed
qed

lemma loop_never_raises_aux:
  "mcq_int_loop v c l cand rs = Some y \<Longrightarrow> 1 \<le> l \<longrightarrow> (\<forall>e. y \<noteq> Inl e)"
proof (induction rule: mcq_int_loop.raw_induct[rotated 1, consumes 1, case_names step])
  case (step loop v c l cand rs y)
  show ?case
  proof (intro impI)
    assume l: "1 \<le> l"
    show "\<forall>e. y \<noteq> Inl e"
    proof (cases "card cand < 5")
      case False
      with step(2) show ?thesis by auto
    next
      case True
      let ?x = "candidate_at v c l rs 0"
      let ?cand = "if 0 < ?x then insert ?x cand else cand"
      from round_total[OF l] obtain delta where
        r: "random_randint 1 l rs = Inr (delta, rest rs)"
        "draw_val v c delta (rest rs) = Inr (?x, advance 2 rs)"
        by blast
      with step(2) True have call: "loop v c l ?cand (advance 2 rs) = Some y" by simp
      from step(1)[OF call] l show ?thesis by blast
    qed
  qed
qed

lemma mcq_limit_ge_1: "1 \<le> mcq_limit v c"
  using mcq_limit_ge[of v c] by simp

lemma label_options_total:
  assumes "c \<in> set xs" "length xs = 5"
  shows "\<exists>r. label_options c xs = Inr r"
proof -
  from list_index_Some[OF assms(1)] obtain k where "list_index xs c = Some k" "k < length xs"
    by blast
  with assms(2) show ?thesis by (simp add: label_options_def length_labels)
qed

lemma mcq_options_int_after_loop:
  assumes "mcq_int_loop v c (mcq_limit v c) {c} rs = Some (Inr (cand, rs1))"
  shows "\<exists>r. mcq_options_int v c rs = Some (Inr r)"
proof -
  have f: "finite cand" and c5: "card cand = 5" and sub: "{c} \<subseteq> cand"
    using mcq_int_loop_result[OF assms] by simp_all
  obtain xs rs2 where sh: "random_shuffle (list_of_set cand) rs1 = (xs, rs2)"
    by (cases "random_shuffle (list_of_set cand) rs1")
  have m: "mset xs = mset (list_of_set cand)" by (rule random_shuffle_mset[OF sh])
  have "set xs = cand" using mset_eq_setD[OF m] list_of_set_props[OF f] by simp
  moreover have "length xs = 5" using mset_eq_length[OF m] list_of_set_props[OF f] c5 by simp
  ultimately obtain r where "label_options c xs = Inr r"
    using label_options_total[of c xs] sub by auto
  with assms sh show ?thesis by (simp add: mcq_options_int_def)
qed

lemma mcq_options_int_never_raises: "mcq_options_int v c rs \<noteq> Some (Inl e)"
proof
  assume a: "mcq_options_int v c rs = Some (Inl e)"
  show False
  proof (cases "mcq_int_loop v c (mcq_limit v c) {c} rs")
    case None
    with a show False by (simp add: mcq_options_int_def)
  next
    case (Some y)
    from loop_never_raises_aux[OF Some] mcq_limit_ge_1 have "\<forall>e. y \<noteq> Inl e" by blast
    then obtain cand rs1 where "y = Inr (cand, rs1)" by (cases y) auto
    with Some mcq_options_int_after_loop a show False by fastforce
  qed
qed

lemma mcq_options_int_returns_iff_collected:
  "(\<exists>r. mcq_options_int v c rs = Some (Inr r)) \<longleftrightarrow>
   (\<exists>n. 5 \<le> card (insert c (collected v c (mcq_limit v c) rs n)))"
proof
  assume "\<exists>r. mcq_options_int v c rs = Some (Inr r)"
  then obtain y where y: "mcq_int_loop v c (mcq_limit v c) {c} rs = Some y"
    by (cases "mcq_int_loop v c (mcq_limit v c) {c} rs") (auto simp: mcq_options_int_def)
  from loop_collected_if_returns_aux[OF y] mcq_limit_ge_1
  show "\<exists>n. 5 \<le> card (insert c (collected v c (mcq_limit v c) rs n))" by simp
next
  assume "\<exists>n. 5 \<le> card (insert c (collected v c (mcq_limit v c) rs n))"
  then obtain n where "5 \<le> card ({c} \<union> collected v c (mcq_limit v c) rs n)" by auto
  from loop_returns_if_collected[OF _ mcq_limit_ge_1 this] obtain cand rs1 where
    "mcq_int_loop v c (mcq_limit v c) {c} rs = Some (Inr (cand, rs1))" by auto
  then show "\<exists>r. mcq_options_int v c rs = Some (Inr r)" by (rule mcq_options_int_after_loop)
qed

lemma advance_draws_Nil [simp]: "advance k (draws []) = draws []"
  by (simp add: advance_def fun_eq_iff)

lemma zero_source_candidate: "candidate_at RandomShapeGenerator 1 8 (draws []) k = 0"
  by (simp add: candidate_at_def random_randint_def draw_val_def random_choice_numeral)

lemma zero_source_options: "mcq_options_int RandomShapeGenerator 1 (draws []) = None"
proof -
  have l: "mcq_limit RandomShapeGenerator 1 = 8" by (simp add: mcq_limit_eq)
  have "collected RandomShapeGenerator 1 8 (draws []) n = {}" for n
    by (simp add: collected_def zero_source_candidate)
  then have "\<not> (\<exists>n. 5 \<le> card (insert 1 (collected RandomShapeGenerator 1
      (mcq_limit RandomShapeGenerator 1) (draws []) n)))"
    by (simp add: l)
  then have "\<not> (\<exists>r. mcq_options_int RandomShapeGenerator 1 (draws []) = Some (Inr r))"
    unfolding mcq_options_int_returns_iff_collected .
  then have nr: "mcq_options_int RandomShapeGenerator 1 (draws []) \<noteq> Some (Inr r)" for r by blast
  show ?thesis
  proof (cases "mcq_options_int RandomShapeGenerator 1 (draws [])")
    case None
    then show ?thesis .
  next
    case (Some y)
    then show ?thesis
      using nr mcq_options_int_never_raises[of RandomShapeGenerator 1 "draws []"]
      by (cases y) auto
  qed
qed

lemma small_loop_never_returns_aux:
  "mcq_small_loop pool chosen rs = Some y \<Longrightarrow>
     finite pool \<longrightarrow> card pool < 5 \<longrightarrow> chosen \<subseteq> pool \<longrightarrow> chosen \<noteq> {} \<longrightarrow> False"
proof (induction rule: mcq_small_loop.raw_induct[rotated 1, consumes 1, case_names step])
  case (step loop pool chosen rs y)
  show ?case
  proof (intro impI)
    assume fp: "finite pool" and cp: "card pool < 5" and sub: "chosen \<subseteq> pool" and ne: "chosen \<noteq> {}"
    have "card chosen \<le> card pool" by (rule card_mono[OF fp sub])
    with cp have c: "card chosen < 5" by simp
    from sub ne have "pool \<noteq> {}" by auto
    with fp have "list_of_set pool \<noteq> []" by (simp add: list_of_set_def)
    then obtain x rs1 where ch: "random_choice (list_of_set pool) rs = Inr (x, rs1)"
      by (simp add: random_choice_def randbelow_def)
    have "x \<in> pool" using random_choice_mem[OF ch] fp by (simp add: list_of_set_def)
    with sub have s': "insert x chosen \<subseteq> pool" "insert x chosen \<noteq> {}" by auto
    from step(2) c ch have "loop pool (insert x chosen) rs1 = Some y" by simp
    from step(1)[OF this] fp cp s' show False by blast
  qed
qed

lemma small_pool_never_returns:
  assumes "card (insert c (set pool)) < 5"
  shows "mcq_options_small_set c pool rs = None"
proof (cases "mcq_small_loop (insert c (set pool)) {c} rs")
  case None
  then show ?thesis by (simp add: mcq_options_small_set_def)
next
  case (Some y)
  from small_loop_never_returns_aux[OF Some] assms show ?thesis by simp
qed

lemma four_candidates_never_return:
  "mcq_options_small_set 1 [0, 1, 2, 3] rs = None"
  "mcq_options_small_set 0 [0, 1, 2, 3] rs = None"
proof -
  have "insert 1 (set [0, 1, 2, 3 :: int]) = {0, 1, 2, 3}" "insert 0 (set [0, 1, 2, 3 :: int]) = {0, 1, 2, 3}"
    by auto
  then have c: "card (insert 1 (set [0, 1, 2, 3 :: int])) < 5" "card (insert 0 (set [0, 1, 2, 3 :: int])) < 5"
    by simp_all
  show "mcq_options_small_set 1 [0, 1, 2, 3] rs = None"
    by (rule small_pool_never_returns[OF c(1)])
  show "mcq_options_small_set 0 [0, 1, 2, 3] rs = None"
    by (rule small_pool_never_returns[OF c(2)])
qed

lemma symmetry_never_returns:
  "gen_isosceles_triangle v rng ''symmetry'' rs \<noteq> Some (Inr r)"
  "gen_scalene_triangle v rng ''symmetry'' rs \<noteq> Some (Inr r)"
  "gen_trapezium v rng ''symmetry'' rs \<noteq> Some (Inr r)"
  "gen_parallelogram v rng ''symmetry'' rs \<noteq> Some (Inr r)"
  by (auto simp: gen_isosceles_triangle_def isosceles_triangle_question_def
      gen_scalene_triangle_def scalene_triangle_question_def
      gen_trapezium_def trapezium_question_def
      gen_parallelogram_def parallelogram_question_def
      build_question_def four_candidates_never_return split: sum.splits)

lemma rectangle_run:
  "gen_one RandomShapeGenerator ''rectangle'' ''easy'' (draws [3, 2, 4, 0, 6, 3, 4]) =
     Some (Inr (\<lparr>qtext = symmetry_q,
                 opts = [(''A'', i2s 1), (''B'', i2s 2), (''C'', i2s 3), (''D'', i2s 4), (''E'', i2s 0)],
                 correct_letter = ''B'', figure = Rectangle_dims 3 5, correct = 2\<rparr>, draws []))"
  by (simp add: gen_one_def DIFF_RANGES_def Q_TYPES_def gen_rectangle_def
      rectangle_question_def build_question_def rectangle_options random_randint_def
      random_choice_numeral)

section \<open>The claims\<close>

text \<open>
  C2. Looking up the recorded correct letter in the options of a generated
  question yields the decimal string of the value \<^verbatim>\<open>correct\<close> the generator
  computed, for both files, every shape, tier and question kind.
\<close>

theorem correct_letter_indexes_correct_value:
  assumes "gen_one v shape diff rs = Some (Inr (g, rs'))"
  shows "map_of (opts g) (correct_letter g) = Some (i2s (correct g))"
proof -
  from gen_one_built[OF assms] obtain rng qt d rs1 where
    b: "build_question v d (question_of v d qt) rs1 = Some (Inr (g, rs'))"
    by (auto simp: built_def)
  obtain t c bl where q: "question_of v d qt = (t, c, bl)" by (cases "question_of v d qt")
  from build_question_result[OF b[unfolded q]] obtain xs where
    "correct g = c" "assembled c xs (opts g) (correct_letter g)" by auto
  then show ?thesis using assembled_lookup by simp
qed

theorem correct_letter_indexes_correct_value_witness:
  "map_of [(''A'', ''22''), (''B'', ''25''), (''C'', ''26''), (''D'', ''27''), (''E'', ''21'')] ''B''
     = Some (i2s 25)"
  using correct_letter_indexes_correct_value[OF square_run] by simp

text \<open>
  C1 (as amended). Every generated question has exactly five options with
  pairwise distinct values, exactly one of which is the computed correct
  value. An option other than the correct one is positive in an area,
  perimeter or missing-dimension question and non-negative in a symmetry
  question, whose candidate pool holds 0.
\<close>

theorem options_distinct_one_correct:
  assumes "gen_one v shape diff rs = Some (Inr (g, rs'))"
  shows "\<exists>xs. map snd (opts g) = map i2s xs \<and> map fst (opts g) = labels \<and> length xs = 5 \<and>
           distinct xs \<and> distinct (map snd (opts g)) \<and>
           length (filter (\<lambda>p. snd p = i2s (correct g)) (opts g)) = 1 \<and>
           (\<forall>x\<in>set xs. x \<noteq> correct g \<longrightarrow> (if qtext g = symmetry_q then 0 \<le> x else 0 < x))"
proof -
  from assms obtain rng qt d rs1 t c b xs where
    q: "question_of v d qt = (t, c, b)" and cl: "d = No_dims \<or> classified v d (t, c, b)" and
    g: "qtext g = t" "correct g = c" and a: "assembled c xs (opts g) (correct_letter g)" and
    vals: "case b of Options_int \<Rightarrow> \<forall>x\<in>set xs. x = c \<or> 0 < x
                   | Options_small pool \<Rightarrow> set xs \<subseteq> insert c (set pool)"
    by (rule gen_one_question)
  have sign: "\<forall>x\<in>set xs. x \<noteq> c \<longrightarrow> (if t = symmetry_q then 0 \<le> x else 0 < x)"
  proof (cases b)
    case Options_int
    with vals show ?thesis by auto
  next
    case (Options_small pool)
    with cl q have "t = symmetry_q \<and> (\<forall>x\<in>set pool. 0 \<le> x)"
      by (auto simp: classified_def)
    with vals Options_small show ?thesis by auto
  qed
  have len: "length xs = 5" and d: "distinct xs" using a by (auto simp: assembled_def)
  from assembled_values[OF a] assembled_once[OF a] len d sign g show ?thesis
    by (intro exI[of _ xs]) simp
qed

theorem options_distinct_one_correct_witness:
  "\<exists>xs. [''22'', ''25'', ''26'', ''27'', ''21''] = map i2s xs \<and> [''A'', ''B'', ''C'', ''D'', ''E''] = labels \<and>
     length xs = 5 \<and> distinct xs \<and> distinct [''22'', ''25'', ''26'', ''27'', ''21''] \<and>
     length (filter (\<lambda>p. snd p = i2s 25)
       [(''A'', ''22''), (''B'', ''25''), (''C'', ''26''), (''D'', ''27''), (''E'', ''21'')]) = 1 \<and>
     (\<forall>x\<in>set xs. x \<noteq> 25 \<longrightarrow> (if area_q = symmetry_q then 0 \<le> x else 0 < x))"
  using options_distinct_one_correct[OF square_run] by simp

text \<open>
  The claim as stated fails: the options of an easy rectangle symmetry
  question are 0, 1, 2, 3 and 4, and 0 is not positive.
\<close>

theorem symmetry_option_zero_counterexample:
  "outcome (gen_one RandomShapeGenerator ''rectangle'' ''easy'' (draws [3, 2, 4, 0, 6, 3, 4])) =
     Some (Inr \<lparr>qtext = symmetry_q,
                opts = [(''A'', i2s 1), (''B'', i2s 2), (''C'', i2s 3), (''D'', i2s 4), (''E'', i2s 0)],
                correct_letter = ''B'', figure = Rectangle_dims 3 5, correct = 2\<rparr>) \<and>
   i2s 0 = ''0'' \<and> \<not> (0 :: int) < 0"
  by (simp add: outcome_def rectangle_run i2s_def nat_digits.simps digit_char_def)

text \<open>
  C3 (as amended). For every tier and shape, every dimension drawn by
  \<^verbatim>\<open>random.randint(*rng)\<close> lies in the tier's range \<open>[low, high]\<close> (easy
  \<open>[1, 10]\<close>, medium \<open>[11, 50]\<close>, difficult \<open>[51, 100]\<close>). Three dimensions follow
  rules of their own: the width of a rectangle differs from the height and
  lies in the range unless it is the height plus one; the bottom of a
  trapezium lies between \<open>top + 2\<close> and \<open>max (top + 2) high\<close>; the slant of a
  parallelogram lies between 1 and 10.
\<close>

theorem sampled_dimensions_in_tier:
  assumes "gen_one v shape diff rs = Some (Inr (g, rs'))"
  shows "\<exists>rng. map_of DIFF_RANGES diff = Some rng \<and> rng \<in> {(1, 10), (11, 50), (51, 100)} \<and>
           dims_in_tier rng (figure g)"
proof -
  from assms obtain rng qt d rs1 t c b xs where
    "map_of DIFF_RANGES diff = Some rng" "dims_in_tier rng d" "figure g = d"
    by (rule gen_one_question)
  with tier_ranges show ?thesis by auto
qed

theorem sampled_dimensions_in_tier_witness:
  "\<exists>rng. map_of DIFF_RANGES ''easy'' = Some rng \<and> rng \<in> {(1, 10), (11, 50), (51, 100)} \<and>
           dims_in_tier rng (Rectangle_dims 3 5)"
  using sampled_dimensions_in_tier[OF rectangle_run] by simp

text \<open>
  The claim as stated fails: in the easy tier a trapezium with top 10 gets
  the bottom 12, outside \<open>[1, 10]\<close>.
\<close>

theorem trapezium_bottom_counterexample:
  "outcome (gen_one RandomShapeGenerator ''trapezium'' ''easy''
       (draws [0, 9, 0, 3, 0, 0, 10, 0, 2, 0, 3, 0])) =
     Some (Inr \<lparr>qtext = area_q,
                opts = [(''A'', i2s 41), (''B'', i2s 42), (''C'', i2s 43), (''D'', i2s 44), (''E'', i2s 40)],
                correct_letter = ''D'', figure = Trapezium_dims 10 12 4, correct = 44\<rparr>) \<and>
   map_of DIFF_RANGES ''easy'' = Some (1, 10) \<and> \<not> (12 :: int) \<le> 10"
  by (simp add: outcome_def gen_one_def DIFF_RANGES_def Q_TYPES_def gen_trapezium_def
      sample_bottom_def trapezium_question_def clamp_int_def build_question_def trapezium_options
      random_randint_def random_choice_numeral)

text \<open>
  C6 (as amended). In every missing-dimension question (a question whose
  text is none of the four fixed texts) the correct value is the hidden
  dimension of the figure, the text begins by naming the known quantity of
  the shape, and the number it states is the formula of that quantity,
  recomputed from the figure with the hidden dimension set to the correct
  value and rounded to an integer by \<^verbatim>\<open>clamp_int\<close>. The stated number is
  within one half of the formula value, and it is the formula value itself
  wherever that is an integer: the areas of the square, the rectangle and
  the parallelogram, the perimeters of the scalene triangle and of the
  regular polygons.
\<close>

theorem missing_dimension_round_trip:
  assumes "gen_one v shape diff rs = Some (Inr (g, rs'))"
    and "qtext g \<notin> {area_q, perimeter_q, circumference_q, symmetry_q}"
  shows "with_hidden (figure g) (correct g) = figure g \<and>
         starts_with (''The '' @ known_name (figure g) @ '' is '') (qtext g) \<and>
         stated_quantity (qtext g) =
           Some (clamp_int (known_quantity (with_hidden (figure g) (correct g)))) \<and>
         (\<exists>q. stated_quantity (qtext g) = Some q \<and>
              \<bar>real_of_int q - known_quantity (with_hidden (figure g) (correct g))\<bar> \<le> 1 / 2) \<and>
         (\<forall>n. known_quantity (with_hidden (figure g) (correct g)) = of_int n \<longrightarrow>
              stated_quantity (qtext g) = Some n) \<and>
         (case figure g of
            Square_dims s \<Rightarrow> stated_quantity (qtext g) = Some (correct g * s)
          | Rectangle_dims w h \<Rightarrow> stated_quantity (qtext g) = Some (correct g * h)
          | Parallelogram_dims b h slant \<Rightarrow> stated_quantity (qtext g) = Some (correct g * h)
          | Scalene_dims a b c \<Rightarrow> stated_quantity (qtext g) = Some (correct g + b + c)
          | Ngon_dims n s \<Rightarrow> stated_quantity (qtext g) = Some (int n * correct g)
          | _ \<Rightarrow> True)"
proof -
  from assms(1) obtain rng qt d rs1 t c b xs where
    q: "question_of v d qt = (t, c, b)" and cl: "d = No_dims \<or> classified v d (t, c, b)" and
    g: "qtext g = t" "figure g = d" "correct g = c"
    by (rule gen_one_question)
  from assms(2) g have nf: "t \<noteq> area_q" "t \<noteq> perimeter_q" "t \<noteq> circumference_q" "t \<noteq> symmetry_q"
    by auto
  from q nf have "d \<noteq> No_dims" by auto
  with cl have "classified v d (t, c, b)" by simp
  with nf have h: "with_hidden d c = d" and
    sw: "starts_with (''The '' @ known_name d @ '' is '') t" and
    st: "stated_quantity t = Some (clamp_int (known_quantity d))"
    by (auto simp: classified_def)
  have near: "\<bar>real_of_int (clamp_int (known_quantity d)) - known_quantity d\<bar> \<le> 1 / 2"
    unfolding clamp_int_def by (rule py_round_nearest)
  have exact: "stated_quantity t = Some n" if "known_quantity d = of_int n" for n
    using st that by (simp add: clamp_int_of_int)
  have shapes: "case d of
            Square_dims s \<Rightarrow> stated_quantity t = Some (c * s)
          | Rectangle_dims w h \<Rightarrow> stated_quantity t = Some (c * h)
          | Parallelogram_dims b h slant \<Rightarrow> stated_quantity t = Some (c * h)
          | Scalene_dims a b' c' \<Rightarrow> stated_quantity t = Some (c + b' + c')
          | Ngon_dims n s \<Rightarrow> stated_quantity t = Some (int n * c)
          | _ \<Rightarrow> True"
  proof (cases d)
    case (Square_dims s)
    with h have "c = s" by simp
    then show ?thesis using Square_dims by (simp add: exact)
  next
    case (Rectangle_dims w hh)
    with h have "c = w" by simp
    then show ?thesis using Rectangle_dims by (simp add: exact)
  next
    case (Parallelogram_dims bb hh sl)
    with h have "c = bb" by simp
    then show ?thesis using Parallelogram_dims by (simp add: exact)
  next
    case (Scalene_dims a1 b1 c1)
    with h have "c = a1" by simp
    then show ?thesis using Scalene_dims by (simp add: exact)
  next
    case (Ngon_dims n s)
    with h have "c = s" by simp
    then show ?thesis using Ngon_dims by (simp add: exact)
  qed simp_all
  from h sw st near exact shapes show ?thesis unfolding g by simp
qed

theorem missing_dimension_round_trip_witness:
  "with_hidden (Square_dims 5) 5 = Square_dims 5 \<and>
   starts_with ''The area is '' (given_area RandomShapeGenerator 25 ''side length'') \<and>
   stated_quantity (given_area RandomShapeGenerator 25 ''side length'') = Some 25 \<and>
   known_quantity (with_hidden (Square_dims 5) 5) = 25"
proof -
  have "given_area RandomShapeGenerator 25 ''side length'' \<notin> fixed_texts"
    by (rule given_not_fixed)
  then have "qtext \<lparr>qtext = given_area RandomShapeGenerator 25 ''side length'',
       opts = [(''A'', i2s 2), (''B'', i2s 5), (''C'', i2s 6), (''D'', i2s 7), (''E'', i2s 1)],
       correct_letter = ''B'', figure = Square_dims 5, correct = 5\<rparr>
     \<notin> {area_q, perimeter_q, circumference_q, symmetry_q}"
    by (simp add: fixed_texts_def)
  note t = missing_dimension_round_trip[OF missing_run this]
  from t have a: "with_hidden (Square_dims 5) 5 = Square_dims 5" by simp
  from t have b: "starts_with ''The area is '' (given_area RandomShapeGenerator 25 ''side length'')"
    by simp
  from t have c: "stated_quantity (given_area RandomShapeGenerator 25 ''side length'') = Some 25"
    by (simp add: clamp_int_def)
  have d: "known_quantity (with_hidden (Square_dims 5) 5) = 25" by simp
  from a b c d show ?thesis by blast
qed

text \<open>
  The claim as stated fails: the stated quantity is the rounded value, not
  the formula value. The missing-radius question of the circle of radius 1
  states the circumference 6, while the circumference formula gives
  \<open>2 * pi\<close> for the correct radius 1, which is not 6.
\<close>

theorem stated_circumference_rounded_counterexample:
  "outcome (gen_one RandomShapeGenerator ''circle'' ''easy'' (draws [2, 0, 0, 3, 9, 3, 2, 3, 3, 3])) =
     Some (Inr \<lparr>qtext = ''The circumference is 6 cm. Find the radius (in cm).'',
                opts = [(''A'', ''2''), (''B'', ''3''), (''C'', ''4''), (''D'', ''5''), (''E'', ''1'')],
                correct_letter = ''E'', figure = Circle_dims 1, correct = 1\<rparr>) \<and>
   stated_quantity ''The circumference is 6 cm. Find the radius (in cm).'' = Some 6 \<and>
   known_quantity (with_hidden (Circle_dims 1) 1) = 2 * pi \<and>
   known_quantity (with_hidden (Circle_dims 1) 1) \<noteq> real_of_int 6"
proof -
  have r: "outcome (gen_one RandomShapeGenerator ''circle'' ''easy'' (draws [2, 0, 0, 3, 9, 3, 2, 3, 3, 3])) =
     Some (Inr \<lparr>qtext = ''The circumference is 6 cm. Find the radius (in cm).'',
                opts = [(''A'', ''2''), (''B'', ''3''), (''C'', ''4''), (''D'', ''5''), (''E'', ''1'')],
                correct_letter = ''E'', figure = Circle_dims 1, correct = 1\<rparr>)"
    unfolding circle_unit_run outcome_def circumference_text[symmetric]
    by (simp add: i2s_def nat_digits.simps digit_char_def)
  have s: "stated_quantity ''The circumference is 6 cm. Find the radius (in cm).'' = Some 6"
    unfolding circumference_text[symmetric] by (rule stated_given_circumference)
  have k: "known_quantity (with_hidden (Circle_dims 1) 1) = 2 * pi" by simp
  have n: "2 * pi \<noteq> real_of_int 6" using pi_lower by simp
  from r s k n show ?thesis by simp
qed

text \<open>
  C7. Every answer is an integer; the answer of an area, perimeter or
  circumference question of a catalogue shape is the exact formula value
  rounded by \<^verbatim>\<open>clamp_int\<close>, which yields a nearest integer and, for a value
  exactly halfway between two integers, the even one. The square of side 5
  has the area answer 25 and the circle of radius 3 the circumference
  answer 19.
\<close>

theorem answers_round_half_even:
  assumes "gen_one v shape diff rs = Some (Inr (g, rs'))" and "shape \<in> set SHAPES"
  shows "(qtext g = area_q \<longrightarrow> correct g = clamp_int (area_formula (figure g))) \<and>
         (qtext g \<in> {perimeter_q, circumference_q} \<longrightarrow>
            correct g = clamp_int (perimeter_formula (figure g))) \<and>
         (\<forall>x. \<bar>real_of_int (clamp_int x) - x\<bar> \<le> 1 / 2) \<and>
         (\<forall>n. clamp_int (of_int n + 1 / 2) = (if even n then n else n + 1)) \<and>
         fst (snd (question_of v (Square_dims 5) ''area'')) = 25 \<and>
         fst (snd (question_of v (Circle_dims 3) ''perimeter'')) = 19"
proof -
  from gen_one_built[OF assms(1)] assms(2) obtain rng qt d where
    bt: "built v rng qt g rs' d" and nd: "d \<noteq> No_dims" by blast
  from bt obtain rs1 where
    b: "build_question v d (question_of v d qt) rs1 = Some (Inr (g, rs'))"
    unfolding built_def by blast
  obtain t c bl where q: "question_of v d qt = (t, c, bl)" by (cases "question_of v d qt")
  from build_question_result[OF b[unfolded q]] have
    g: "qtext g = t" "figure g = d" "correct g = c" by auto
  have cl: "classified v d (t, c, bl)" using question_of_classified[OF nd, of v qt] q by simp
  have a: "t = area_q \<longrightarrow> c = clamp_int (area_formula d)"
    using cl texts_distinct by (auto simp: classified_def fixed_texts_def)
  have p: "t \<in> {perimeter_q, circumference_q} \<longrightarrow> c = clamp_int (perimeter_formula d)"
    using cl texts_distinct by (auto simp: classified_def fixed_texts_def)
  have sq: "fst (snd (question_of v (Square_dims 5) ''area'')) = 25"
    by (simp add: square_question_def)
  have ci: "fst (snd (question_of v (Circle_dims 3) ''perimeter'')) = 19"
    by (simp add: circle_3_question)
  show ?thesis
    using a p g sq ci py_round_nearest py_round_half by (simp add: clamp_int_def)
qed

theorem answers_round_half_even_witness:
  "(25 :: int) = clamp_int (area_formula (Square_dims 5)) \<and>
   clamp_int (of_int 2 + 1 / 2) = 2 \<and> clamp_int (of_int 3 + 1 / 2) = 4"
proof -
  have s: "''square'' \<in> set SHAPES" by (simp add: SHAPES_def)
  note t = answers_round_half_even[OF square_run s]
  from t have a: "(25 :: int) = clamp_int (area_formula (Square_dims 5))" by simp
  from t have h: "\<forall>n. clamp_int (of_int n + 1 / 2) = (if even n then n else n + 1)" by blast
  have "clamp_int (of_int 2 + 1 / 2) = 2" using h[rule_format, of 2] by simp
  moreover have "clamp_int (of_int 3 + 1 / 2) = 4" using h[rule_format, of 3] by simp
  ultimately show ?thesis using a by blast
qed

text \<open>
  C9. For the circle the question kind is the element that
  \<^verbatim>\<open>random.choice\<close> draws from the three-element list of area, perimeter
  and missing dimension, and \<^verbatim>\<open>gen_one\<close> is \<^verbatim>\<open>gen_circle\<close> run on that kind;
  the text of the question is the one of that kind. The generator turns
  any other kind into the circumference question, so no generated circle
  question asks for lines of symmetry.
\<close>

theorem circle_never_asks_symmetry:
  assumes "gen_one v ''circle'' diff rs = Some (Inr (g, rs'))"
  shows "\<exists>rng qt r. map_of DIFF_RANGES diff = Some rng \<and>
           random_choice [''area'', ''perimeter'', ''missing''] rs = Inr (qt, rest rs) \<and>
           qt = [''area'', ''perimeter'', ''missing''] ! (rs 0 mod 3) \<and>
           qt \<in> {''area'', ''perimeter'', ''missing''} \<and>
           gen_one v ''circle'' diff rs = gen_circle v rng qt (rest rs) \<and>
           gen_circle v rng qt (rest rs) = Some (Inr (g, rs')) \<and>
           figure g = Circle_dims r \<and>
           qtext g = (if qt = ''area'' then area_q
                      else if qt = ''perimeter'' then circumference_q
                      else given_circumference (clamp_int (2 * pi * of_int r))) \<and>
           qtext g \<in> {area_q, circumference_q, given_circumference (clamp_int (2 * pi * of_int r))} \<and>
           qtext g \<noteq> symmetry_q \<and>
           gen_circle v rng ''symmetry'' = gen_circle v rng ''perimeter''"
proof -
  from gen_one_built[OF assms] obtain rng qt0 d r where
    rng: "map_of DIFF_RANGES diff = Some rng" and bt0: "built v rng qt0 g rs' d" and
    d: "d = Circle_dims r"
    by blast
  define qt where "qt = [''area'', ''perimeter'', ''missing''] ! (rs 0 mod 3)"
  have ch: "random_choice [''area'', ''perimeter'', ''missing''] rs = Inr (qt, rest rs)"
    by (simp add: random_choice_def randbelow_def qt_def)
  have mem: "qt \<in> {''area'', ''perimeter'', ''missing''}"
    using random_choice_mem[OF ch] by simp
  have eq: "gen_one v ''circle'' diff rs = gen_circle v rng qt (rest rs)"
    unfolding gen_one_def using rng ch by simp
  with assms have gc: "gen_circle v rng qt (rest rs) = Some (Inr (g, rs'))" by simp
  from gc obtain r' rs1 where
    b: "build_question v (Circle_dims r') (circle_question v r' qt) rs1 = Some (Inr (g, rs'))"
    unfolding gen_circle_def by (auto split: sum.splits)
  obtain t c bl where q: "circle_question v r' qt = (t, c, bl)" by (cases "circle_question v r' qt")
  from build_question_result[OF b[unfolded q]] have
    g: "qtext g = t" "figure g = Circle_dims r'" by auto
  from q mem have t: "t = (if qt = ''area'' then area_q
                      else if qt = ''perimeter'' then circumference_q
                      else given_circumference (clamp_int (2 * pi * of_int r')))"
    by (auto simp: circle_question_def)
  then have tm: "t \<in> {area_q, circumference_q, given_circumference (clamp_int (2 * pi * of_int r'))}"
    by simp
  have ns: "t \<noteq> symmetry_q"
    using tm texts_distinct given_not_fixed(3)[of "clamp_int (2 * pi * of_int r')"]
    by (auto simp: fixed_texts_def)
  have e: "circle_question v x ''symmetry'' = circle_question v x ''perimeter''" for x
    by (simp add: circle_question_def)
  have fb: "gen_circle v rng ''symmetry'' = gen_circle v rng ''perimeter''"
    unfolding gen_circle_def fun_eq_iff e by (rule allI) (rule refl)
  show ?thesis
    apply (rule exI[of _ rng], rule exI[of _ qt], rule exI[of _ r'])
    using rng ch mem eq gc g t tm ns fb qt_def by simp
qed

theorem circle_never_asks_symmetry_witness:
  "\<exists>qt r. random_choice [''area'', ''perimeter'', ''missing''] (draws [4, 2, 0, 3, 9, 3, 2, 0, 3, 0]) =
       Inr (qt, draws [2, 0, 3, 9, 3, 2, 0, 3, 0]) \<and>
     qt = ''perimeter'' \<and>
     gen_circle RandomShapeGenerator (1, 10) qt (draws [2, 0, 3, 9, 3, 2, 0, 3, 0]) =
       gen_one RandomShapeGenerator ''circle'' ''easy'' (draws [4, 2, 0, 3, 9, 3, 2, 0, 3, 0]) \<and>
     Circle_dims 3 = Circle_dims r \<and>
     circumference_q \<noteq> symmetry_q"
proof -
  from circle_never_asks_symmetry[OF circle_run] obtain rng qt r where
    a: "map_of DIFF_RANGES ''easy'' = Some rng" and
    b: "random_choice [''area'', ''perimeter'', ''missing''] (draws [4, 2, 0, 3, 9, 3, 2, 0, 3, 0]) =
          Inr (qt, rest (draws [4, 2, 0, 3, 9, 3, 2, 0, 3, 0]))" and
    c: "qt = [''area'', ''perimeter'', ''missing''] ! (draws [4, 2, 0, 3, 9, 3, 2, 0, 3, 0] 0 mod 3)" and
    e: "gen_one RandomShapeGenerator ''circle'' ''easy'' (draws [4, 2, 0, 3, 9, 3, 2, 0, 3, 0]) =
          gen_circle RandomShapeGenerator rng qt (rest (draws [4, 2, 0, 3, 9, 3, 2, 0, 3, 0]))" and
    f: "Circle_dims 3 = Circle_dims r" and n: "circumference_q \<noteq> symmetry_q"
    by (simp del: One_nat_def) blast
  from a have rng: "rng = (1, 10)" by (simp add: DIFF_RANGES_def)
  from c have qt: "qt = ''perimeter''" by simp
  from b e f n show ?thesis unfolding rng qt by simp
qed

text \<open>
  C10. \<^verbatim>\<open>build_one\<close> draws the tier and the shape and runs \<^verbatim>\<open>gen_one\<close>; of
  the question that comes back, a record of \<^verbatim>\<open>randomShapeGenerator.py\<close>
  stores under \<^verbatim>\<open>"correct_answer"\<close> the value string of the correct option,
  which is the entry of the options at the correct letter and the decimal
  numeral of the correct value, and a record of \<^verbatim>\<open>untitled1.py\<close> stores the
  correct letter itself, one of A to E. A decimal numeral is never a
  letter, so a record of the one file never equals a record of the other,
  whatever the questions are.
\<close>

theorem correct_answer_value_versus_letter:
  assumes "build_one RandomShapeGenerator i rs1 = Some (Inr (e1, rs1'))"
    and "build_one Untitled1 j rs2 = Some (Inr (e2, rs2'))"
  shows "\<exists>d1 s1 g1 d2 s2 g2.
           random_choice DIFF_LIST rs1 = Inr (d1, rest rs1) \<and>
           random_choice SHAPES (rest rs1) = Inr (s1, rest (rest rs1)) \<and>
           gen_one RandomShapeGenerator s1 d1 (rest (rest rs1)) = Some (Inr (g1, rs1')) \<and>
           question e1 = qtext g1 \<and> options e1 = opts g1 \<and>
           correct_letter g1 \<in> set labels \<and>
           map_of (options e1) (correct_letter g1) = Some (correct_answer e1) \<and>
           correct_answer e1 = i2s (correct g1) \<and>
           correct_answer e1 \<noteq> correct_letter g1 \<and>
           correct_answer e1 \<notin> set labels \<and>
           random_choice DIFF_LIST rs2 = Inr (d2, rest rs2) \<and>
           random_choice SHAPES (rest rs2) = Inr (s2, rest (rest rs2)) \<and>
           gen_one Untitled1 s2 d2 (rest (rest rs2)) = Some (Inr (g2, rs2')) \<and>
           question e2 = qtext g2 \<and> options e2 = opts g2 \<and>
           correct_answer e2 = correct_letter g2 \<and>
           correct_answer e2 \<in> set labels \<and>
           map_of (options e2) (correct_answer e2) = Some (i2s (correct g2)) \<and>
           correct_answer e2 \<noteq> i2s (correct g2) \<and>
           e1 \<noteq> e2"
proof -
  have parts: "\<exists>d s g. random_choice DIFF_LIST rs = Inr (d, rest rs) \<and>
      random_choice SHAPES (rest rs) = Inr (s, rest (rest rs)) \<and>
      gen_one v s d (rest (rest rs)) = Some (Inr (g, rs')) \<and> make_entry v g d idx = Inr e"
    if b: "build_one v idx rs = Some (Inr (e, rs'))" for v idx rs e rs'
  proof -
    from b obtain d r1 where c1: "random_choice DIFF_LIST rs = Inr (d, r1)"
      unfolding build_one_def by (cases "random_choice DIFF_LIST rs") auto
    have r1: "r1 = rest rs" by (rule random_choice_rest[OF c1])
    from b c1 obtain s r2 where c2: "random_choice SHAPES r1 = Inr (s, r2)"
      unfolding build_one_def by (cases "random_choice SHAPES r1") auto
    have r2: "r2 = rest r1" by (rule random_choice_rest[OF c2])
    from b c1 c2 obtain g r3 where g: "gen_one v s d r2 = Some (Inr (g, r3))"
      unfolding build_one_def by (cases "gen_one v s d r2") (auto split: sum.splits)
    from b c1 c2 g have "make_entry v g d idx = Inr e" "r3 = rs'"
      unfolding build_one_def by (auto split: sum.splits)
    with c1 c2 g r1 r2 show ?thesis by blast
  qed
  from parts[OF assms(1)] obtain d1 s1 g1 where
    c1: "random_choice DIFF_LIST rs1 = Inr (d1, rest rs1)"
        "random_choice SHAPES (rest rs1) = Inr (s1, rest (rest rs1))" and
    g1: "gen_one RandomShapeGenerator s1 d1 (rest (rest rs1)) = Some (Inr (g1, rs1'))" and
    m1: "make_entry RandomShapeGenerator g1 d1 i = Inr e1"
    by blast
  from parts[OF assms(2)] obtain d2 s2 g2 where
    c2: "random_choice DIFF_LIST rs2 = Inr (d2, rest rs2)"
        "random_choice SHAPES (rest rs2) = Inr (s2, rest (rest rs2))" and
    g2: "gen_one Untitled1 s2 d2 (rest (rest rs2)) = Some (Inr (g2, rs2'))" and
    m2: "make_entry Untitled1 g2 d2 j = Inr e2"
    by blast
  from g1 obtain c1' xs1 where a1: "assembled c1' xs1 (opts g1) (correct_letter g1)" "correct g1 = c1'"
    by (rule gen_one_question)
  from g2 obtain c2' xs2 where a2: "assembled c2' xs2 (opts g2) (correct_letter g2)" "correct g2 = c2'"
    by (rule gen_one_question)
  have k1: "map_of (opts g1) (correct_letter g1) = Some (i2s (correct g1))"
    using assembled_lookup[OF a1(1)] a1(2) by simp
  have k2: "map_of (opts g2) (correct_letter g2) = Some (i2s (correct g2))"
    using assembled_lookup[OF a2(1)] a2(2) by simp
  from m1 k1 have e1: "correct_answer e1 = i2s (correct g1)" "options e1 = opts g1" "question e1 = qtext g1"
    by (auto simp: make_entry_def)
  from m2 have e2: "correct_answer e2 = correct_letter g2" "options e2 = opts g2" "question e2 = qtext g2"
    by (auto simp: make_entry_def)
  have l1: "correct_letter g1 \<in> set labels" by (rule assembled_values(5)[OF a1(1)])
  have l2: "correct_letter g2 \<in> set labels" by (rule assembled_values(5)[OF a2(1)])
  have n1: "correct_answer e1 \<notin> set labels" unfolding e1 by (rule i2s_not_label)
  have n2: "i2s (correct g2) \<notin> set labels" by (rule i2s_not_label)
  have d1: "correct_answer e1 \<noteq> correct_letter g1" using n1 l1 by auto
  have d2: "correct_answer e2 \<noteq> i2s (correct g2)" using n2 l2 e2 by auto
  have "correct_answer e1 \<noteq> correct_answer e2" using n1 l2 e2 by auto
  then have ne: "e1 \<noteq> e2" by auto
  show ?thesis
    apply (rule exI[of _ d1], rule exI[of _ s1], rule exI[of _ g1])
    apply (rule exI[of _ d2], rule exI[of _ s2], rule exI[of _ g2])
    using c1 g1 e1 l1 k1 d1 n1 c2 g2 e2 l2 k2 d2 ne by simp
qed

theorem correct_answer_value_versus_letter_witness:
  "\<exists>g1 g2.
     gen_one RandomShapeGenerator ''square'' ''easy'' (draws [0, 4, 0, 3, 9, 3, 2, 0, 3, 0]) = Some (Inr (g1, draws [])) \<and>
     gen_one Untitled1 ''square'' ''easy'' (draws [0, 4, 0, 3, 7, 3, 2, 0, 3, 0]) = Some (Inr (g2, draws [])) \<and>
     qtext g1 = area_q \<and> qtext g2 = area_q \<and> opts g1 = opts g2 \<and>
     ''25'' = i2s (correct g1) \<and> ''B'' = correct_letter g2 \<and>
     ''25'' \<notin> set labels \<and> ''B'' \<in> set labels \<and>
     \<lparr>question = area_q, correct_answer = ''25'',
       options = [(''A'', ''22''), (''B'', ''25''), (''C'', ''26''), (''D'', ''27''), (''E'', ''21'')],
       difficulty_level = ''easy'', img_path = image_path ''easy'' 1\<rparr> \<noteq>
     \<lparr>question = area_q, correct_answer = ''B'',
       options = [(''A'', ''22''), (''B'', ''25''), (''C'', ''26''), (''D'', ''27''), (''E'', ''21'')],
       difficulty_level = ''easy'', img_path = image_path ''easy'' 1\<rparr>"
proof -
  let ?r1 = "draws [0, 0, 0, 4, 0, 3, 9, 3, 2, 0, 3, 0]"
  let ?r2 = "draws [0, 0, 0, 4, 0, 3, 7, 3, 2, 0, 3, 0]"
  let ?os = "[(''A'', ''22''), (''B'', ''25''), (''C'', ''26''), (''D'', ''27''), (''E'', ''21'')]"
  let ?e1 = "\<lparr>question = area_q, correct_answer = ''25'', options = ?os,
       difficulty_level = ''easy'', img_path = image_path ''easy'' 1\<rparr>"
  let ?e2 = "\<lparr>question = area_q, correct_answer = ''B'', options = ?os,
       difficulty_level = ''easy'', img_path = image_path ''easy'' 1\<rparr>"
  from correct_answer_value_versus_letter[OF rsg_build[of 1] u1_build[of 1]]
  obtain d1 s1 g1 d2 s2 g2 where
    c1: "random_choice DIFF_LIST ?r1 = Inr (d1, rest ?r1)"
        "random_choice SHAPES (rest ?r1) = Inr (s1, rest (rest ?r1))" and
    g1: "gen_one RandomShapeGenerator s1 d1 (rest (rest ?r1)) = Some (Inr (g1, draws []))" and
    e1: "question ?e1 = qtext g1" "options ?e1 = opts g1"
        "correct_answer ?e1 = i2s (correct g1)" "correct_answer ?e1 \<notin> set labels" and
    c2: "random_choice DIFF_LIST ?r2 = Inr (d2, rest ?r2)"
        "random_choice SHAPES (rest ?r2) = Inr (s2, rest (rest ?r2))" and
    g2: "gen_one Untitled1 s2 d2 (rest (rest ?r2)) = Some (Inr (g2, draws []))" and
    e2: "question ?e2 = qtext g2" "options ?e2 = opts g2"
        "correct_answer ?e2 = correct_letter g2" "correct_answer ?e2 \<in> set labels" and
    ne: "?e1 \<noteq> ?e2"
    by blast
  from c1 have s1: "d1 = ''easy''" "s1 = ''square''"
    by (simp_all add: DIFF_LIST_def DIFF_RANGES_def SHAPES_def random_choice_numeral)
  from c2 have s2: "d2 = ''easy''" "s2 = ''square''"
    by (simp_all add: DIFF_LIST_def DIFF_RANGES_def SHAPES_def random_choice_numeral)
  from g1 have g1': "gen_one RandomShapeGenerator ''square'' ''easy'' (draws [0, 4, 0, 3, 9, 3, 2, 0, 3, 0]) =
      Some (Inr (g1, draws []))" unfolding s1 by simp
  from g2 have g2': "gen_one Untitled1 ''square'' ''easy'' (draws [0, 4, 0, 3, 7, 3, 2, 0, 3, 0]) =
      Some (Inr (g2, draws []))" unfolding s2 by simp
  from e1 e2 have "qtext g1 = area_q" "qtext g2 = area_q" "opts g1 = opts g2"
    "''25'' = i2s (correct g1)" "''B'' = correct_letter g2" "''25'' \<notin> set labels" "''B'' \<in> set labels"
    by simp_all
  with g1' g2' ne show ?thesis by (intro exI[of _ g1] exI[of _ g2]) simp
qed

text \<open>
  C8 (as amended). The manifest is built from the results of all workers
  and is sorted by the string \<^verbatim>\<open>img_path\<close>; the paths of the workers are
  pairwise different, so the manifest is the same for every order in which
  the workers complete. The order is the lexicographic order of the path
  strings.
\<close>

theorem manifest_sorted_by_path:
  assumes "\<forall>i<length es. \<exists>rs rs'. build_one Untitled1 (int i + 1) rs = Some (Inr (es ! i, rs'))"
    and "mset out = mset es"
  shows "mset (main_manifest out) = mset es \<and> sorted (map img_path (main_manifest out)) \<and>
         distinct (map img_path (main_manifest out)) \<and> main_manifest out = main_manifest es"
proof -
  have key: "\<exists>d \<in> set DIFF_LIST. img_path (es ! i) = image_path d (int i + 1)" if "i < length es" for i
    using assms(1) that build_one_img_path by blast
  have inj: "img_path (es ! i) = img_path (es ! j) \<Longrightarrow> i = j" if "i < length es" "j < length es" for i j
  proof -
    assume e: "img_path (es ! i) = img_path (es ! j)"
    from key[OF that(1)] obtain d where d: "d \<in> set DIFF_LIST" "img_path (es ! i) = image_path d (int i + 1)"
      by blast
    from key[OF that(2)] obtain d' where d': "d' \<in> set DIFF_LIST" "img_path (es ! j) = image_path d' (int j + 1)"
      by blast
    from e d d' have "image_path d (int i + 1) = image_path d' (int j + 1)" by simp
    from image_path_inj[OF d(1) d'(1) this] show "i = j" by simp
  qed
  have dk: "distinct (map img_path es)"
    unfolding distinct_conv_nth using inj by (auto simp: nth_map)
  then have io: "inj_on img_path (set es)" and de: "distinct es"
    by (auto simp: distinct_map)
  have so: "set out = set es" by (rule mset_eq_setD[OF assms(2)])
  have "mset out = mset (sort_key img_path es)" using assms(2) by simp
  moreover have "inj_on img_path (set out)" using io so by simp
  moreover have "sorted (map img_path (sort_key img_path es))" by simp
  ultimately have eq: "sort_key img_path out = sort_key img_path es" by (rule sort_key_inj_key_eq)
  have "distinct (map img_path (sort_key img_path es))"
    using dk by (simp add: distinct_map)
  with eq assms(2) show ?thesis by (simp add: main_manifest_def)
qed

theorem manifest_sorted_by_path_witness:
  "main_manifest [sample_entry 2, sample_entry 1] = main_manifest [sample_entry 1, sample_entry 2]"
proof -
  have a: "\<forall>i<length [sample_entry 1, sample_entry 2].
      \<exists>rs rs'. build_one Untitled1 (int i + 1) rs = Some (Inr ([sample_entry 1, sample_entry 2] ! i, rs'))"
  proof (intro allI impI)
    fix i assume "i < length [sample_entry 1, sample_entry 2]"
    then have "i = 0 \<or> i = 1" by auto
    then show "\<exists>rs rs'. build_one Untitled1 (int i + 1) rs = Some (Inr ([sample_entry 1, sample_entry 2] ! i, rs'))"
    proof
      assume "i = 0"
      with u1_build_sample[of 1] show ?thesis by (intro exI) simp
    next
      assume "i = 1"
      with u1_build_sample[of 2] show ?thesis by (intro exI) simp
    qed
  qed
  have b: "mset [sample_entry 2, sample_entry 1] = mset [sample_entry 1, sample_entry 2]" by simp
  from manifest_sorted_by_path[OF a b] show ?thesis by blast
qed

text \<open>
  The claim as stated fails: with ten workers that all draw the easy tier
  the manifest lists Q1, Q10, Q2, ..., Q9, since the path of Q10 is smaller
  than the path of Q2 as a string.
\<close>

theorem manifest_not_in_index_order_counterexample:
  "outcome (build_one Untitled1 10 (draws [0, 0, 0, 4, 0, 3, 7, 3, 2, 0, 3, 0])) =
     Some (Inr (sample_entry 10)) \<and>
   img_path (sample_entry 2) = ''images/easy/Q2.png'' \<and>
   img_path (sample_entry 10) = ''images/easy/Q10.png'' \<and>
   main_manifest (map sample_entry [1, 2, 3, 4, 5, 6, 7, 8, 9, 10]) =
     map sample_entry [1, 10, 2, 3, 4, 5, 6, 7, 8, 9]"
  by (simp add: u1_build_sample outcome_def sample_paths sample_sorted del: list.map)

text \<open>
  C5 (as amended). The scalene generator resamples a bounded number of
  times. The triple it builds its question from is one of the triples
  sampled within the budget (the first triple and 100 resamples in
  \<^verbatim>\<open>randomShapeGenerator.py\<close>, 100 triples in \<^verbatim>\<open>untitled1.py\<close>): the first
  one that passes the acceptance test, every triple before it having
  failed, or, when none passes, the triple sampled last, used as it is. So
  the triple satisfies the strict triangle inequality unless every triple
  sampled within the budget failed the acceptance test. Where the range
  satisfies \<open>high < 2 * low\<close>, as in the difficult tier, every triple is
  valid.
\<close>

theorem scalene_triple_valid_unless_exhausted:
  assumes "gen_scalene_triangle v rng qt rs = Some (Inr (g, rs'))"
  shows "\<exists>a b c k. figure g = Scalene_dims a b c \<and> k < budget v \<and>
           (\<exists>r. triple_at rng rs k = Inr ((a, b, c), r)) \<and>
           (\<forall>j < k. \<forall>t r. triple_at rng rs j = Inr (t, r) \<longrightarrow> \<not> accepted v t) \<and>
           (accepted v (a, b, c) \<or> k = budget v - 1) \<and>
           (valid a b c \<or>
            (k = budget v - 1 \<and>
             (\<forall>j < budget v. \<forall>t r. triple_at rng rs j = Inr (t, r) \<longrightarrow> \<not> accepted v t))) \<and>
           (snd rng < 2 * fst rng \<longrightarrow> valid a b c)"
proof -
  from assms obtain a b c rs1 where s: "sample_scalene v rng rs = Inr ((a, b, c), rs1)"
    unfolding gen_scalene_triangle_def by (cases "sample_scalene v rng rs") auto
  with assms have
    b: "build_question v (Scalene_dims a b c) (scalene_triangle_question v a b c qt) rs1 = Some (Inr (g, rs'))"
    unfolding gen_scalene_triangle_def by (auto split: if_splits)
  obtain t c' bl where q: "scalene_triangle_question v a b c qt = (t, c', bl)"
    by (cases "scalene_triangle_question v a b c qt")
  from build_question_result[OF b[unfolded q]] have f: "figure g = Scalene_dims a b c" by simp
  from sample_scalene_chosen[OF s] obtain k where
    k: "k < budget v" "\<exists>r. triple_at rng rs k = Inr ((a, b, c), r)"
       "\<forall>j < k. \<forall>t r. triple_at rng rs j = Inr (t, r) \<longrightarrow> \<not> accepted v t"
       "accepted v (a, b, c) \<or> k = budget v - 1"
    by blast
  have v: "valid a b c \<or>
      (k = budget v - 1 \<and> (\<forall>j < budget v. \<forall>t r. triple_at rng rs j = Inr (t, r) \<longrightarrow> \<not> accepted v t))"
  proof (cases "accepted v (a, b, c)")
    case True
    then show ?thesis by (simp add: accepted_valid)
  next
    case False
    with k(4) have last: "k = budget v - 1" by simp
    have "\<not> accepted v t2" if "j < budget v" "triple_at rng rs j = Inr (t2, r)" for j t2 r
    proof (cases "j < k")
      case True
      with k(3) that show ?thesis by blast
    next
      case False
      with that(1) last have "j = k" by simp
      with that(2) k(2) have "t2 = (a, b, c)" by auto
      with \<open>\<not> accepted v (a, b, c)\<close> show ?thesis by simp
    qed
    with last show ?thesis by blast
  qed
  have n: "snd rng < 2 * fst rng \<longrightarrow> valid a b c"
    using narrow_range_valid[OF sample_scalene_range[OF s]] by blast
  from f k v n show ?thesis by blast
qed

theorem scalene_triple_valid_unless_exhausted_witness:
  "\<exists>a b c k. Scalene_dims 3 4 5 = Scalene_dims a b c \<and> k < budget RandomShapeGenerator \<and>
     (\<exists>r. triple_at (1, 10) (draws [2, 3, 4, 7, 0, 9, 0, 3, 0, 5, 0]) k = Inr ((a, b, c), r)) \<and>
     (accepted RandomShapeGenerator (a, b, c) \<or> k = budget RandomShapeGenerator - 1) \<and>
     (valid a b c \<or>
      (\<forall>j < budget RandomShapeGenerator. \<forall>t r.
         triple_at (1, 10) (draws [2, 3, 4, 7, 0, 9, 0, 3, 0, 5, 0]) j = Inr (t, r) \<longrightarrow>
         \<not> accepted RandomShapeGenerator t))"
  using scalene_triple_valid_unless_exhausted[OF valid_scalene_run] by simp blast

text \<open>
  The claim as stated fails: in the easy tier a source whose first 101
  triples are all \<open>(1, 1, 10)\<close> uses up the budget, and the question is built
  from the degenerate triple \<open>(1, 1, 10)\<close>.
\<close>

theorem degenerate_triple_counterexample:
  "outcome (gen_one RandomShapeGenerator ''scalene_triangle'' ''easy''
       (draws (5 # concat (replicate 101 [0, 0, 9]) @ [7, 0, 9, 0, 3, 0, 5, 0]))) =
     Some (Inr \<lparr>qtext = perimeter_q,
                opts = [(''A'', i2s 6), (''B'', i2s 8), (''C'', i2s 10), (''D'', i2s 12), (''E'', i2s 4)],
                correct_letter = ''D'', figure = Scalene_dims 1 1 10, correct = 12\<rparr>) \<and>
   \<not> valid 1 1 10"
proof -
  have "gen_one RandomShapeGenerator ''scalene_triangle'' ''easy''
       (draws (5 # concat (replicate 101 [0, 0, 9]) @ [7, 0, 9, 0, 3, 0, 5, 0])) =
     gen_scalene_triangle RandomShapeGenerator (1, 10) ''perimeter''
       (draws (concat (replicate 101 [0, 0, 9]) @ [7, 0, 9, 0, 3, 0, 5, 0]))"
    by (simp add: gen_one_def DIFF_RANGES_def Q_TYPES_def random_choice_numeral
        del: replicate.simps concat.simps)
  then show ?thesis
    by (simp only: degenerate_scalene_gen outcome_def) (simp add: valid_def)
qed

text \<open>
  C4 (as amended). The loop of the integer-option builder has no bound on
  its rounds and the builder never raises: it returns exactly when, after
  some number of rounds, the correct value and the positive candidates
  drawn so far make five different values, and it runs forever on every
  other random source. When it returns, the four options besides the
  correct value are pairwise different and positive.
\<close>

theorem option_loop_returns_iff:
  "((\<exists>r. mcq_options_int v c rs = Some (Inr r)) \<longleftrightarrow>
      (\<exists>n. 5 \<le> card (insert c (collected v c (mcq_limit v c) rs n)))) \<and>
   (\<forall>e. mcq_options_int v c rs \<noteq> Some (Inl e)) \<and>
   (\<forall>os l rs'. mcq_options_int v c rs = Some (Inr ((os, l), rs')) \<longrightarrow>
      (\<exists>xs. length xs = 5 \<and> distinct xs \<and> c \<in> set xs \<and> map snd os = map i2s xs \<and>
         (\<forall>x\<in>set xs. x \<noteq> c \<longrightarrow> 0 < x)))"
proof (intro conjI allI impI)
  show "(\<exists>r. mcq_options_int v c rs = Some (Inr r)) \<longleftrightarrow>
      (\<exists>n. 5 \<le> card (insert c (collected v c (mcq_limit v c) rs n)))"
    by (rule mcq_options_int_returns_iff_collected)
next
  fix e show "mcq_options_int v c rs \<noteq> Some (Inl e)" by (rule mcq_options_int_never_raises)
next
  fix os l rs'
  assume "mcq_options_int v c rs = Some (Inr ((os, l), rs'))"
  from mcq_options_int_result[OF this] obtain xs where
    a: "assembled c xs os l" and p: "\<forall>x\<in>set xs. x = c \<or> 0 < x" by blast
  from a have "length xs = 5" "distinct xs" "c \<in> set xs"
    by (auto simp: assembled_def)
  with assembled_values(1)[OF a] p
  show "\<exists>xs. length xs = 5 \<and> distinct xs \<and> c \<in> set xs \<and> map snd os = map i2s xs \<and>
         (\<forall>x\<in>set xs. x \<noteq> c \<longrightarrow> 0 < x)"
    by (intro exI[of _ xs]) auto
qed

theorem option_loop_returns_iff_witness:
  "(\<exists>n. 5 \<le> card (insert 25 (collected RandomShapeGenerator 25 (mcq_limit RandomShapeGenerator 25)
      (draws [0, 3, 9, 3, 2, 0, 3, 0]) n))) \<and>
   (\<exists>xs. length xs = 5 \<and> distinct xs \<and> 25 \<in> set xs \<and>
      map snd [(''A'', ''22''), (''B'', ''25''), (''C'', ''26''), (''D'', ''27''), (''E'', ''21'')] = map i2s xs \<and>
      (\<forall>x\<in>set xs. x \<noteq> 25 \<longrightarrow> 0 < x))"
proof -
  note t = option_loop_returns_iff[of RandomShapeGenerator 25 "draws [0, 3, 9, 3, 2, 0, 3, 0]"]
  have "\<exists>r. mcq_options_int RandomShapeGenerator 25 (draws [0, 3, 9, 3, 2, 0, 3, 0]) = Some (Inr r)"
    using square_run_options by simp
  with t have a: "\<exists>n. 5 \<le> card (insert 25 (collected RandomShapeGenerator 25
      (mcq_limit RandomShapeGenerator 25) (draws [0, 3, 9, 3, 2, 0, 3, 0]) n))"
    by blast
  from t square_run_options have "\<exists>xs. length xs = 5 \<and> distinct xs \<and> 25 \<in> set xs \<and>
      map snd [(''A'', ''22''), (''B'', ''25''), (''C'', ''26''), (''D'', ''27''), (''E'', ''21'')] = map i2s xs \<and>
      (\<forall>x\<in>set xs. x \<noteq> 25 \<longrightarrow> 0 < x)"
    by blast
  with a show ?thesis by blast
qed

text \<open>
  The claim as stated fails: on the random source that yields 0 at every
  draw the builder called for the correct value 1 draws the candidate 0 in
  every round and never returns, and so does the generator of an easy square
  question, whose side is 1 and whose area is 1 on that source.
\<close>

theorem option_loop_runs_forever_counterexample:
  "mcq_options_int RandomShapeGenerator 1 (draws []) = None \<and>
   gen_one RandomShapeGenerator ''square'' ''easy'' (draws []) = None"
  by (simp add: zero_source_options gen_one_def DIFF_RANGES_def Q_TYPES_def random_choice_numeral
      gen_square_def random_randint_def square_question_def build_question_def)

end
